theory Spec2Isabelle
  imports Complex_Main "HOL-Library.Sublist"
begin

section \<open>Python strings\<close>

text \<open>
  A Python \<open>str\<close> is modelled as a \<open>string\<close> whose characters are the code points
  U+0000 .. U+00FF (Latin-1), one \<open>char\<close> per code point. On this range the character
  classes below are the ones CPython uses: \<open>str.isspace\<close> (which \<open>str.strip()\<close>,
  \<open>str.split()\<close> and the regular expression class \<open>\s\<close> share), \<open>str.isdigit\<close>
  (which also accepts the superscript digits U+00B2, U+00B3 and U+00B9), the decimal
  digits of \<open>\d\<close> and \<open>int()\<close>, and the line boundaries of \<open>str.splitlines()\<close>.
\<close>

definition is_space :: "char \<Rightarrow> bool" where
  "is_space c \<longleftrightarrow> c \<in> set [CHR 0x09, CHR 0x0A, CHR 0x0B, CHR 0x0C, CHR 0x0D,
                            CHR 0x1C, CHR 0x1D, CHR 0x1E, CHR 0x1F, CHR 0x20,
                            CHR 0x85, CHR 0xA0]"

definition is_decimal :: "char \<Rightarrow> bool" where
  "is_decimal c \<longleftrightarrow> c \<in> set ''0123456789''"

definition is_digit :: "char \<Rightarrow> bool" where
  "is_digit c \<longleftrightarrow> is_decimal c \<or> c \<in> set [CHR 0xB2, CHR 0xB3, CHR 0xB9]"

definition is_linebreak :: "char \<Rightarrow> bool" where
  "is_linebreak c \<longleftrightarrow> c \<in> set [CHR 0x0A, CHR 0x0B, CHR 0x0C, CHR 0x0D,
                                CHR 0x1C, CHR 0x1D, CHR 0x1E, CHR 0x85]"

text \<open>\<open>s.strip()\<close>: leading and trailing whitespace removed.\<close>

definition rstrip :: "string \<Rightarrow> string" where
  "rstrip s = rev (dropWhile is_space (rev s))"

definition strip :: "string \<Rightarrow> string" where
  "strip s = rstrip (dropWhile is_space s)"

text \<open>
  \<open>s.split()\<close>: the maximal runs of non-whitespace characters, in order. The first
  argument of \<open>split_from\<close> is the word being read.
\<close>

fun split_from :: "string \<Rightarrow> string \<Rightarrow> string list" where
  "split_from w [] = (if w = [] then [] else [w])"
| "split_from w (c # cs) =
     (if is_space c then (if w = [] then split_from [] cs else w # split_from [] cs)
      else split_from (w @ [c]) cs)"

definition split :: "string \<Rightarrow> string list" where
  "split s = split_from [] s"

text \<open>\<open>sep.join(xs)\<close>.\<close>

fun join :: "string \<Rightarrow> string list \<Rightarrow> string" where
  "join sep [] = []"
| "join sep [x] = x"
| "join sep (x # y # ys) = x @ sep @ join sep (y # ys)"

text \<open>
  \<open>find_sub sub s\<close> cuts \<open>s\<close> at the first occurrence of \<open>sub\<close>: the text before it
  and the text after it. So \<open>sub in s\<close> is \<open>find_sub sub s \<noteq> None\<close>, and
  \<open>s.split(sub, 1)[1]\<close> is the second component.
\<close>

fun find_sub :: "string \<Rightarrow> string \<Rightarrow> (string \<times> string) option" where
  "find_sub sub [] = (if sub = [] then Some ([], []) else None)"
| "find_sub sub (c # cs) =
     (if prefix sub (c # cs) then Some ([], drop (length sub) (c # cs))
      else (case find_sub sub cs of None \<Rightarrow> None
            | Some (pre, post) \<Rightarrow> Some (c # pre, post)))"

text \<open>\<open>s.startswith(p)\<close> is \<open>prefix p s\<close>.\<close>

text \<open>
  \<open>s.replace(old, new)\<close>: every non-overlapping occurrence of \<open>old\<close>, from the left; an
  empty \<open>old\<close> matches before every character and at the end.
\<close>

function replace_nonempty :: "string \<Rightarrow> string \<Rightarrow> string \<Rightarrow> string" where
  "replace_nonempty old new s =
     (if old = [] \<or> s = [] then s
      else if prefix old s then new @ replace_nonempty old new (drop (length old) s)
      else hd s # replace_nonempty old new (tl s))"
  by pat_completeness auto
termination
  by (relation "measure (\<lambda>(old, new, s). length s)") auto

definition replace :: "string \<Rightarrow> string \<Rightarrow> string \<Rightarrow> string" where
  "replace s old new =
     (if old = [] then new @ concat (map (\<lambda>c. c # new) s)
      else replace_nonempty old new s)"

text \<open>\<open>str(n)\<close> for a non-negative integer: its decimal digits.\<close>

definition digit_char :: "nat \<Rightarrow> char" where
  "digit_char d = char_of (48 + d)"

fun str_nat :: "nat \<Rightarrow> string" where
  "str_nat n = (if n < 10 then [digit_char n] else str_nat (n div 10) @ [digit_char (n mod 10)])"

declare str_nat.simps [simp del]

text \<open>
  \<open>s.isdigit()\<close>, and \<open>int(s)\<close> for a string that passed it. \<open>int\<close> reads decimal
  digits only, so it raises ValueError on a superscript digit. (It also accepts a
  sign, underscores and surrounding whitespace, none of which passes \<open>isdigit\<close>; the
  interpreter's optional cap on the number of digits is taken as switched off.)
\<close>

datatype py_error = IndexError | ValueError | Escaped

definition isdigit :: "string \<Rightarrow> bool" where
  "isdigit s \<longleftrightarrow> s \<noteq> [] \<and> list_all is_digit s"

definition digit_val :: "char \<Rightarrow> nat" where
  "digit_val c = of_char c - 48"

definition py_int :: "string \<Rightarrow> py_error + nat" where
  "py_int s = (if s \<noteq> [] \<and> list_all is_decimal s
               then Inr (foldl (\<lambda>acc c. 10 * acc + digit_val c) 0 s)
               else Inl ValueError)"


section \<open>The Python interpreter as a parameter\<close>

text \<open>
  \<open>exec(text, g, g)\<close> is not part of the repository: it is a parameter of the model. One
  call either completes, leaving a namespace; or raises an \<open>Exception\<close>, which the
  harness catches (the namespace may have changed before the raise); or it escapes: it
  raises a \<open>BaseException\<close> outside \<open>Exception\<close> (SystemExit, KeyboardInterrupt), which
  no \<open>except Exception\<close> clause catches, or it never returns. \<open>exec\<close> is taken to be
  a function of the namespace and the text. \<open>repr(e)\<close> and \<open>traceback.format_exc()\<close>
  are parameters as well.
\<close>

datatype ('g, 'e) outcome = Completed 'g | Raised 'e 'g | Escapes

record ('g, 'e) python =
  py_exec :: "'g \<Rightarrow> string \<Rightarrow> ('g, 'e) outcome"
  py_globals :: 'g
  py_repr :: "'e \<Rightarrow> string"
  py_format_exc :: "'e \<Rightarrow> string"

section \<open>env.py: the scratchpad state\<close>

record ScratchpadState =
  code_lines :: "string list"
  feedback :: string

definition nl :: string where
  "nl = [CHR 0x0A]"

definition render :: "ScratchpadState \<Rightarrow> string" where
  "render st =
     (let numbered = map (\<lambda>i. ''L '' @ str_nat (i + 1) @ '' '' @ code_lines st ! i)
                         [0 ..< length (code_lines st)]
      in join nl numbered @ nl @ ''***'' @ nl @ feedback st)"

section \<open>env.py: DSLExecutor.run\<close>

text \<open>
  The tests run in order against the namespace the candidate code left, each in the
  namespace its predecessors left; a test that raises is recorded with its 1-based
  index, its text and the \<open>repr\<close> of the exception.
\<close>

fun run_tests ::
  "('g, 'e) python \<Rightarrow> 'g \<Rightarrow> nat \<Rightarrow> string list \<Rightarrow> py_error + (nat \<times> string \<times> string) list"
where
  "run_tests P g idx [] = Inr []"
| "run_tests P g idx (t # ts) =
     (case py_exec P g t of
        Completed g' \<Rightarrow> run_tests P g' (idx + 1) ts
      | Raised e g' \<Rightarrow>
          (case run_tests P g' (idx + 1) ts of
             Inl x \<Rightarrow> Inl x
           | Inr failed \<Rightarrow> Inr ((idx, t, py_repr P e) # failed))
      | Escapes \<Rightarrow> Inl Escaped)"

definition failure_record :: "nat \<times> string \<times> string \<Rightarrow> string" where
  "failure_record r =
     (case r of (i, t, err) \<Rightarrow>
        ''Test '' @ str_nat i @ '' failed!'' @ nl @ ''Test code:'' @ nl @ t @ nl
        @ ''Error: '' @ err)"

definition run :: "('g, 'e) python \<Rightarrow> string list \<Rightarrow> string \<Rightarrow> py_error + string" where
  "run P tests code_text =
     (case py_exec P (py_globals P) code_text of
        Escapes \<Rightarrow> Inl Escaped
      | Raised e g \<Rightarrow> Inr (py_format_exc P e)
      | Completed g \<Rightarrow>
          (case run_tests P g 1 tests of
             Inl x \<Rightarrow> Inl x
           | Inr failed \<Rightarrow>
               Inr (if failed = [] then [] else join nl (map failure_record failed))))"

section \<open>env.py: CoEEnv\<close>

record CoEEnv =
  state :: ScratchpadState
  tests :: "string list"

definition update_feedback :: "('g, 'e) python \<Rightarrow> CoEEnv \<Rightarrow> py_error + CoEEnv" where
  "update_feedback P env =
     (case run P (tests env) (join nl (code_lines (state env))) of
        Inl x \<Rightarrow> Inl x
      | Inr fb \<Rightarrow> Inr (env\<lparr>state := (state env)\<lparr>feedback := fb\<rparr>\<rparr>))"

definition CoEEnv_init :: "('g, 'e) python \<Rightarrow> string list \<Rightarrow> string list \<Rightarrow> py_error + CoEEnv" where
  "CoEEnv_init P lines ts =
     update_feedback P \<lparr>state = \<lparr>code_lines = lines, feedback = []\<rparr>, tests = ts\<rparr>"

text \<open>
  The regular expression of the REPW branch,
  \<^verbatim>\<open>REPW\s+(\d+)\s+>>>(.*?)>>>(.*)$\<close>, matched at the start of the text. The
  classes \<open>\s\<close> and \<open>\d\<close> and the delimiter's character share no character, so each greedy run
  is maximal. The lazy group is the text up to the first further delimiter; \<open>.\<close> matches
  no newline and \<open>$\<close> matches at the end or before a final newline, so a newline
  anywhere else in the two groups makes every split fail. The result is the three
  groups.
\<close>

definition match_repw :: "string \<Rightarrow> (string \<times> string \<times> string) option" where
  "match_repw a =
     (if \<not> prefix ''REPW'' a then None
      else
        let r1 = drop 4 a;
            r2 = dropWhile is_space r1;
            ds = takeWhile is_decimal r2;
            r3 = dropWhile is_decimal r2;
            r4 = dropWhile is_space r3
        in if takeWhile is_space r1 = [] \<or> ds = [] \<or> takeWhile is_space r3 = []
              \<or> \<not> prefix ''>>>'' r4
           then None
           else
             (case find_sub ''>>>'' (drop 3 r4) of
                None \<Rightarrow> None
              | Some (old, rest) \<Rightarrow>
                  let new = (if rest \<noteq> [] \<and> last rest = CHR 0x0A then butlast rest else rest)
                  in if CHR 0x0A \<in> set old \<or> CHR 0x0A \<in> set new then None
                     else Some (ds, old, new)))"

text \<open>The content of an ADDL or REPL action: the text after the first delimiter \<^verbatim>\<open>>>>\<close>, if any.\<close>

definition content_of :: "string \<Rightarrow> string" where
  "content_of action = (case find_sub ''>>>'' action of None \<Rightarrow> [] | Some (pre, post) \<Rightarrow> post)"

text \<open>\<open>xs.pop(i)\<close> and \<open>xs.insert(i, x)\<close>, for the indices the guards let through.\<close>

definition pop :: "'a list \<Rightarrow> nat \<Rightarrow> 'a list" where
  "pop xs i = take i xs @ drop (Suc i) xs"

definition insert_at :: "'a list \<Rightarrow> nat \<Rightarrow> 'a \<Rightarrow> 'a list" where
  "insert_at xs i x = take i xs @ [x] @ drop i xs"

text \<open>
  The part of \<open>CoEEnv.apply\<close> before \<open>update_feedback\<close>: the new code lines, or the
  exception that \<open>parts[0]\<close> or \<open>int(parts[1])\<close> raises. The source's variable \<open>ln\<close> is
  \<open>lnum\<close> here (\<open>ln\<close> is the logarithm in HOL). Every mutation is the last statement of
  its branch, so an exception leaves the lines as they were.
\<close>

definition edit :: "string list \<Rightarrow> string \<Rightarrow> py_error + string list" where
  "edit lines action0 =
     (let action = strip action0; parts = split action in
      case parts of
        [] \<Rightarrow> Inl IndexError
      | verb # args \<Rightarrow>
          if verb = ''DELL'' then
            (if args \<noteq> [] \<and> isdigit (hd args) then
               (case py_int (hd args) of
                  Inl x \<Rightarrow> Inl x
                | Inr lnum \<Rightarrow>
                    if 1 \<le> lnum \<and> lnum \<le> length lines then Inr (pop lines (lnum - 1))
                    else Inr lines)
             else Inr lines)
          else if verb = ''ADDL'' then
            (if args \<noteq> [] \<and> isdigit (hd args) then
               (case py_int (hd args) of
                  Inl x \<Rightarrow> Inl x
                | Inr lnum \<Rightarrow>
                    let insertion = content_of action;
                        lnum' = max 1 (min lnum (length lines + 1))
                    in Inr (insert_at lines (lnum' - 1) insertion))
             else Inr lines)
          else if verb = ''REPL'' then
            (if args \<noteq> [] \<and> isdigit (hd args) then
               (case py_int (hd args) of
                  Inl x \<Rightarrow> Inl x
                | Inr lnum \<Rightarrow>
                    let replacement = content_of action
                    in if 1 \<le> lnum \<and> lnum \<le> length lines
                       then Inr (lines[lnum - 1 := replacement])
                       else Inr lines)
             else Inr lines)
          else if verb = ''REPW'' then
            (case match_repw action of
               None \<Rightarrow> Inr lines
             | Some (ds, old, new) \<Rightarrow>
                 (case py_int ds of
                    Inl x \<Rightarrow> Inl x
                  | Inr lnum \<Rightarrow>
                      if 1 \<le> lnum \<and> lnum \<le> length lines
                      then Inr (lines[lnum - 1 := replace (lines ! (lnum - 1)) old new])
                      else Inr lines))
          else Inr lines)"

definition CoEEnv_apply :: "('g, 'e) python \<Rightarrow> CoEEnv \<Rightarrow> string \<Rightarrow> py_error + CoEEnv" where
  "CoEEnv_apply P env action =
     (case edit (code_lines (state env)) action of
        Inl x \<Rightarrow> Inl x
      | Inr lines' \<Rightarrow> update_feedback P (env\<lparr>state := (state env)\<lparr>code_lines := lines'\<rparr>\<rparr>))"


section \<open>corruptor.py\<close>

text \<open>
  The results of the random draws are arguments: \<open>idx\<close>, \<open>wi\<close> and \<open>pos\<close> are what
  \<open>random.randrange\<close> returned, and \<open>random.choice(seq)\<close> is \<open>seq[k]\<close> for a drawn
  index \<open>k\<close>; it raises IndexError on an empty sequence. \<open>randrange(n)\<close> returns a value
  below \<open>n\<close>, so the IndexError branches for a draw out of range are never taken by
  the program.
\<close>

definition choice :: "'a list \<Rightarrow> nat \<Rightarrow> py_error + 'a" where
  "choice seq k = (if k < length seq then Inr (seq ! k) else Inl IndexError)"




definition lowercase :: string where
  "lowercase = ''abcdefghijklmnopqrstuvwxyz''"

definition typo_word :: "string list \<Rightarrow> nat \<Rightarrow> nat \<Rightarrow> nat \<Rightarrow> nat \<Rightarrow> py_error + string list" where
  "typo_word code idx wi pos k =
     (if code = [] then Inr code
      else if \<not> idx < length code then Inl IndexError
      else
        let words = split (code ! idx) in
        if words = [] then Inr code
        else if \<not> wi < length words then Inl IndexError
        else
          let w = words ! wi in
          case choice lowercase k of
            Inl x \<Rightarrow> Inl x
          | Inr c \<Rightarrow>
              let w2 = (if length w > 1 then take pos w @ [c] @ drop (pos + 1) w else w @ [c]);
                  new_line = join '' '' (words[wi := w2])
              in Inr (code[idx := new_line]))"

section \<open>demo_generator.py\<close>







section \<open>rl_train.py: the rollout\<close>

text \<open>
  The policy is external. \<open>pol_generate t prompt\<close> is the text the model decodes at turn
  \<open>t\<close> (the turn stands for the sampling randomness), and \<open>pol_logprob\<close> is the first
  component of \<open>compute_logprob\<close>. Rewards are sums of 1.0 and 0.5, which binary floating
  point represents and adds exactly.
\<close>

record 'l policy =
  pol_generate :: "nat \<Rightarrow> string \<Rightarrow> string"
  pol_logprob :: "string \<Rightarrow> string \<Rightarrow> 'l"

record 'l step =
  step_prompt :: string
  step_action :: string
  step_logp :: 'l
  step_reward :: real

definition sample_action :: "'l policy \<Rightarrow> nat \<Rightarrow> string \<Rightarrow> string" where
  "sample_action pol t prompt = strip (pol_generate pol t prompt)"

text \<open>\<open>s.splitlines()[0]\<close> for a non-empty \<open>s\<close>.\<close>

definition first_line :: "string \<Rightarrow> string" where
  "first_line s = takeWhile (\<lambda>c. \<not> is_linebreak c) s"

definition starts_with_verb :: "string \<Rightarrow> bool" where
  "starts_with_verb a =
     list_ex (\<lambda>v. prefix v a) [''DELL'', ''ADDL'', ''REPL'', ''REPW'', ''EXIT'']"

text \<open>
  The loop \<open>for t in range(max_turns)\<close>: the arguments are the turn \<open>t\<close>, the number of
  turns left and the trajectory so far.
\<close>

fun rollout_loop ::
  "('g, 'e) python \<Rightarrow> 'l policy \<Rightarrow> CoEEnv \<Rightarrow> nat \<Rightarrow> nat \<Rightarrow> 'l step list
     \<Rightarrow> py_error + (CoEEnv \<times> 'l step list)"
where
  "rollout_loop P pol env t 0 traj = Inr (env, traj)"
| "rollout_loop P pol env t (Suc n) traj =
     (let prompt = render (state env) @ nl @ ''### '';
          sampled = sample_action pol t prompt;
          action = (if sampled \<noteq> [] then first_line sampled else ''EXIT'');
          lp = pol_logprob pol prompt action;
          fb_before = feedback (state env)
      in case CoEEnv_apply P env action of
           Inl x \<Rightarrow> Inl x
         | Inr env' \<Rightarrow>
             let r0 = (if feedback (state env') = [] \<and> fb_before \<noteq> [] then 1 else 0);
                 r = (if \<not> starts_with_verb action then r0 - 1 / 2 else r0);
                 traj' = traj @ [\<lparr>step_prompt = prompt, step_action = action,
                                  step_logp = lp, step_reward = r\<rparr>]
             in if prefix ''EXIT'' action then Inr (env', traj')
                else rollout_loop P pol env' (t + 1) n traj')"

definition rollout_one ::
  "('g, 'e) python \<Rightarrow> 'l policy \<Rightarrow> string list \<Rightarrow> string list \<Rightarrow> nat
     \<Rightarrow> py_error + 'l step list"
where
  "rollout_one P pol init_code_lines ts max_turns =
     (case CoEEnv_init P init_code_lines ts of
        Inl x \<Rightarrow> Inl x
      | Inr env \<Rightarrow>
          (case rollout_loop P pol env 0 max_turns [] of
             Inl x \<Rightarrow> Inl x
           | Inr (env', traj) \<Rightarrow>
               if feedback (state env') = [] then
                 (if length traj = 0 \<or> \<not> prefix ''EXIT'' (step_action (last traj)) then
                    (if traj = [] then Inl IndexError
                     else Inr (traj[length traj - 1 :=
                                 (last traj)\<lparr>step_reward := step_reward (last traj) - 1 / 2\<rparr>]))
                  else Inr traj)
               else Inr traj))"

section \<open>rl_train.py: returns and advantages\<close>

text \<open>
  Python floats are read as real numbers: the definitions are the formulas the code
  evaluates, without rounding. \<open>1e-6\<close> is the real number \<open>1 / 10 ^ 6\<close>.
\<close>

record 'l flat_step =
  flat_prompt :: string
  flat_action :: string
  old_logp :: 'l
  adv :: real

text \<open>The backward loop over \<open>reversed(traj)\<close>: the pair is \<open>future\<close> and the list \<open>R\<close>.\<close>

definition returns_of :: "real \<Rightarrow> 'l step list \<Rightarrow> real list" where
  "returns_of gamma traj =
     snd (fold (\<lambda>st (future, R).
                  let future' = step_reward st + gamma * future in (future', future' # R))
               (rev traj) (0, []))"

definition turn_stats :: "real list \<Rightarrow> real \<times> real" where
  "turn_stats vals =
     (if length vals \<ge> 2 then
        let mu = sum_list vals / real (length vals);
            var = sum_list (map (\<lambda>v. (v - mu) ^ 2) vals) / real (length vals - 1)
        in (mu, sqrt (max var (1 / 10 ^ 6)))
      else if length vals = 1 then (vals ! 0, 1)
      else (0, 1))"

text \<open>One turn \<open>t\<close> of the loop \<open>for t in range(max_T)\<close>, on the table \<open>advantages\<close>.\<close>

definition advantages_turn :: "real list list \<Rightarrow> nat \<Rightarrow> real list list \<Rightarrow> real list list" where
  "advantages_turn returns t advantages =
     (let idxs = filter (\<lambda>i. t < length (returns ! i)) [0 ..< length returns];
          vals = map (\<lambda>i. returns ! i ! t) idxs;
          mu = fst (turn_stats vals);
          sigma = snd (turn_stats vals)
      in fold (\<lambda>(j, idx) A. A[idx := A ! idx @ [(vals ! j - mu) / sigma]])
              (enumerate 0 idxs) advantages)"

definition advantages_of :: "real \<Rightarrow> 'l step list list \<Rightarrow> real list list" where
  "advantages_of gamma group_trajs =
     (let max_T = Max (set (map length group_trajs));
          returns = map (returns_of gamma) group_trajs
      in fold (advantages_turn returns) [0 ..< max_T] (replicate (length group_trajs) []))"

definition compute_returns_and_advantages ::
  "'l step list list \<Rightarrow> real \<Rightarrow> py_error + 'l flat_step list"
where
  "compute_returns_and_advantages group_trajs gamma =
     (if group_trajs = [] then Inl ValueError
      else
        let advantages = advantages_of gamma group_trajs
        in Inr (concat (map (\<lambda>(i, traj).
                  map (\<lambda>(t, st).
                         \<lparr>flat_prompt = step_prompt st, flat_action = step_action st,
                          old_logp = step_logp st,
                          adv = (if t < length (advantages ! i) then advantages ! i ! t else 0)\<rparr>)
                      (enumerate 0 traj))
               (enumerate 0 group_trajs))))"


section \<open>Notions the properties are stated with\<close>



text \<open>The environment after a list of actions has been applied in order.\<close>

fun replay :: "('g, 'e) python \<Rightarrow> CoEEnv \<Rightarrow> string list \<Rightarrow> py_error + CoEEnv" where
  "replay P env [] = Inr env"
| "replay P env (a # as) =
     (case CoEEnv_apply P env a of Inl x \<Rightarrow> Inl x | Inr env' \<Rightarrow> replay P env' as)"

text \<open>The specification's reading of the malformed-action penalty: the leading token.\<close>

definition leading_token_is_verb :: "string \<Rightarrow> bool" where
  "leading_token_is_verb a =
     (case split a of [] \<Rightarrow> False
      | v # rest \<Rightarrow> v \<in> set [''DELL'', ''ADDL'', ''REPL'', ''REPW'', ''EXIT''])"

text \<open>
  The advantage in the words of the specification: the discounted return
  \<open>R_t = reward_t + gamma * R_{t+1}\<close>, the returns of the trajectories that have a step
  at turn \<open>t\<close>, their mean, and their Bessel-corrected standard deviation with the
  variance floored at \<open>1e-6\<close> (1 when there is a single return).
\<close>

fun disc_return :: "real \<Rightarrow> real list \<Rightarrow> real" where
  "disc_return gamma [] = 0"
| "disc_return gamma (r # rs) = r + gamma * disc_return gamma rs"

definition return_at :: "real \<Rightarrow> 'l step list \<Rightarrow> nat \<Rightarrow> real" where
  "return_at gamma traj t = disc_return gamma (drop t (map step_reward traj))"

definition peer_returns :: "real \<Rightarrow> 'l step list list \<Rightarrow> nat \<Rightarrow> real list" where
  "peer_returns gamma trajs t =
     map (\<lambda>traj. return_at gamma traj t) (filter (\<lambda>traj. t < length traj) trajs)"

definition mean :: "real list \<Rightarrow> real" where
  "mean vals = sum_list vals / real (length vals)"

definition sample_sd :: "real list \<Rightarrow> real" where
  "sample_sd vals =
     (if length vals = 1 then 1
      else sqrt (max (sum_list (map (\<lambda>v. (v - mean vals) ^ 2) vals) / real (length vals - 1))
                     (1 / 10 ^ 6)))"

definition spec_advantage :: "real \<Rightarrow> 'l step list list \<Rightarrow> nat \<Rightarrow> nat \<Rightarrow> real" where
  "spec_advantage gamma trajs i t =
     (return_at gamma (trajs ! i) t - mean (peer_returns gamma trajs t))
       / sample_sd (peer_returns gamma trajs t)"

section \<open>A small interpreter and a scripted policy for the concrete instances\<close>

text \<open>
  The namespace is the list of texts executed so far. A text containing \<open>raise\<close> raises;
  \<open>assert X\<close> raises unless \<open>X\<close> occurs in an executed text; nothing escapes.
\<close>

definition toy_exec :: "string list \<Rightarrow> string \<Rightarrow> (string list, string) outcome" where
  "toy_exec g s =
     (if prefix ''assert '' s then
        (if list_ex (\<lambda>c. find_sub (drop 7 s) c \<noteq> None) g then Completed g
         else Raised ''AssertionError()'' g)
      else if find_sub ''raise'' s \<noteq> None then Raised ''Exception()'' g
      else Completed (g @ [s]))"

definition toy :: "(string list, string) python" where
  "toy = \<lparr>py_exec = toy_exec, py_globals = [], py_repr = (\<lambda>e. e),
          py_format_exc = (\<lambda>e. ''Traceback (most recent call last):'' @ nl @ e @ nl)\<rparr>"

definition scripted :: "string list \<Rightarrow> unit policy" where
  "scripted script =
     \<lparr>pol_generate = (\<lambda>t prompt. if t < length script then script ! t else []),
      pol_logprob = (\<lambda>prompt action. ())\<rparr>"

text \<open>A text without whitespace characters.\<close>

definition spaceless :: "string \<Rightarrow> bool" where
  "spaceless w \<longleftrightarrow> (\<forall>c \<in> set w. \<not> is_space c)"

text \<open>
  The reward of one turn, from the feedback before and after the action: 1 for a
  transition from non-empty to empty feedback, less 1/2 when the action text does not
  start with a command verb.
\<close>

definition turn_reward :: "string \<Rightarrow> string \<Rightarrow> string \<Rightarrow> real" where
  "turn_reward fb_before fb_after a =
     (if fb_after = [] \<and> fb_before \<noteq> [] then 1 else 0)
     - (if starts_with_verb a then 0 else 1 / 2)"

text \<open>
  The action of turn \<open>t\<close> in a given environment, and the step the loop records for
  it when \<open>apply\<close> returned \<open>env'\<close>.
\<close>

definition next_action :: "'l policy \<Rightarrow> nat \<Rightarrow> CoEEnv \<Rightarrow> string" where
  "next_action pol t env =
     (let sampled = sample_action pol t (render (state env) @ nl @ ''### '')
      in if sampled \<noteq> [] then first_line sampled else ''EXIT'')"

definition recorded_step :: "'l policy \<Rightarrow> nat \<Rightarrow> CoEEnv \<Rightarrow> CoEEnv \<Rightarrow> 'l step" where
  "recorded_step pol t env env' =
     \<lparr>step_prompt = render (state env) @ nl @ ''### '',
      step_action = next_action pol t env,
      step_logp = pol_logprob pol (render (state env) @ nl @ ''### '') (next_action pol t env),
      step_reward = turn_reward (feedback (state env)) (feedback (state env'))
                      (next_action pol t env)\<rparr>"

text \<open>
  The list \<open>vals\<close> of turn \<open>t\<close>, and the value the loop appends for trajectory \<open>i\<close> at
  turn \<open>t\<close>, as functions of the table of returns.
\<close>

definition turn_values :: "real list list \<Rightarrow> nat \<Rightarrow> real list" where
  "turn_values returns t =
     map (\<lambda>i. returns ! i ! t) (filter (\<lambda>i. t < length (returns ! i)) [0 ..< length returns])"

definition appended_value :: "real list list \<Rightarrow> nat \<Rightarrow> nat \<Rightarrow> real" where
  "appended_value returns i t =
     (returns ! i ! t - fst (turn_stats (turn_values returns t)))
       / snd (turn_stats (turn_values returns t))"

section \<open>Properties of the edit commands\<close>

lemma py_int_isdigit: "py_int p = Inr k \<Longrightarrow> isdigit p"
  by (auto simp: py_int_def isdigit_def is_digit_def list_all_iff split: if_splits)

text \<open>
  \<open>CoEEnv.apply\<close> stores the lines \<open>edit\<close> computes and keeps the tests; the statements
  below are about \<open>edit\<close>.
\<close>

lemma apply_code_lines:
  assumes "CoEEnv_apply P env a = Inr env'"
  shows "edit (code_lines (state env)) a = Inr (code_lines (state env'))"
    and "tests env' = tests env"
  using assms
  by (auto simp: CoEEnv_apply_def update_feedback_def split: sum.splits)

lemma edit_DELL:
  assumes "split (strip action) = ''DELL'' # p # rest" and "py_int p = Inr k"
  shows "edit lines action =
           Inr (if 1 \<le> k \<and> k \<le> length lines then pop lines (k - 1) else lines)"
  using assms py_int_isdigit[OF assms(2)] by (simp add: edit_def)

lemma edit_ADDL:
  assumes "split (strip action) = ''ADDL'' # p # rest" and "py_int p = Inr k"
  shows "edit lines action =
           Inr (insert_at lines (max 1 (min k (length lines + 1)) - 1) (content_of (strip action)))"
  using assms py_int_isdigit[OF assms(2)] by (simp add: edit_def Let_def)

lemma edit_REPL:
  assumes "split (strip action) = ''REPL'' # p # rest" and "py_int p = Inr k"
  shows "edit lines action =
           Inr (if 1 \<le> k \<and> k \<le> length lines then lines[k - 1 := content_of (strip action)]
                else lines)"
  using assms py_int_isdigit[OF assms(2)] by (simp add: edit_def Let_def)

text \<open>
  Claim C7. A parsed Insert is an action whose first token is \<open>ADDL\<close> and whose second
  token \<open>int\<close> reads as \<open>k\<close>; its content is the text after the first delimiter of the
  stripped action. On a buffer of N lines the line number is clamped to
  \<open>pos = max 1 (min k (N + 1))\<close>, which lies in [1, N+1]; the edit always succeeds and
  yields N+1 lines, with the content at the 1-based position \<open>pos\<close>, the lines before
  it unchanged and the lines from it on shifted by one, in their order; when
  \<open>pos = N + 1\<close> the content is appended.
\<close>

theorem insert_clamps_and_grows:
  assumes "split (strip action) = ''ADDL'' # p # rest" and "py_int p = Inr k"
  shows "\<exists>r pos. pos = max 1 (min k (length lines + 1))
           \<and> 1 \<le> pos \<and> pos \<le> length lines + 1
           \<and> edit lines action = Inr r
           \<and> length r = length lines + 1
           \<and> r = take (pos - 1) lines @ [content_of (strip action)] @ drop (pos - 1) lines
           \<and> r ! (pos - 1) = content_of (strip action)
           \<and> (\<forall>j < pos - 1. r ! j = lines ! j)
           \<and> (\<forall>j. pos - 1 \<le> j \<and> j < length lines \<longrightarrow> r ! (j + 1) = lines ! j)
           \<and> (pos = length lines + 1 \<longrightarrow> r = lines @ [content_of (strip action)])"
proof -
  define pos where "pos = max 1 (min k (length lines + 1))"
  define c where "c = content_of (strip action)"
  define r where "r = take (pos - 1) lines @ [c] @ drop (pos - 1) lines"
  have b: "1 \<le> pos" "pos \<le> length lines + 1"
    by (simp_all add: pos_def)
  have e: "edit lines action = Inr r"
    using edit_ADDL[OF assms, of lines] by (simp add: r_def pos_def c_def insert_at_def)
  have len: "length r = length lines + 1"
    using b by (simp add: r_def)
  have at: "r ! (pos - 1) = c"
    using b by (simp add: r_def nth_append)
  have lo: "\<forall>j < pos - 1. r ! j = lines ! j"
    using b by (simp add: r_def nth_append)
  have hi: "\<forall>j. pos - 1 \<le> j \<and> j < length lines \<longrightarrow> r ! (j + 1) = lines ! j"
  proof (intro allI impI)
    fix j assume j: "pos - 1 \<le> j \<and> j < length lines"
    then have "r ! (j + 1) = ([c] @ drop (pos - 1) lines) ! (j + 1 - (pos - 1))"
      using b by (simp add: r_def nth_append)
    also have "\<dots> = drop (pos - 1) lines ! (j - (pos - 1))"
      using j by (simp add: Suc_diff_le)
    also have "\<dots> = lines ! j"
      using j by simp
    finally show "r ! (j + 1) = lines ! j" .
  qed
  have app: "pos = length lines + 1 \<longrightarrow> r = lines @ [c]"
    by (simp add: r_def)
  show ?thesis
    using b e len at lo hi app unfolding c_def r_def pos_def by blast
qed

theorem insert_clamps_and_grows_witness:
  "split (strip ''ADDL 99 >>>  x = 1'') = ''ADDL'' # ''99'' # [''>>>'', ''x'', ''='', ''1'']
   \<and> py_int ''99'' = Inr 99
   \<and> edit [''a'', ''b''] ''ADDL 99 >>>  x = 1'' = Inr [''a'', ''b'', ''  x = 1'']"
proof -
  have s: "split (strip ''ADDL 99 >>>  x = 1'') = ''ADDL'' # ''99'' # [''>>>'', ''x'', ''='', ''1'']"
    by code_simp
  have i: "py_int ''99'' = Inr 99" by code_simp
  have c: "content_of (strip ''ADDL 99 >>>  x = 1'') = ''  x = 1''" by code_simp
  show ?thesis
    using insert_clamps_and_grows[OF s i, of "[''a'', ''b'']"] s i c by simp
qed

text \<open>
  Claim C8. A parsed Delete is an action whose first token is \<open>DELL\<close> and whose second
  token \<open>int\<close> reads as \<open>k\<close>. On a buffer of N lines, if \<open>1 \<le> k \<le> N\<close> the result has
  N-1 lines: the original sequence with line \<open>k\<close> removed, the others in their order;
  for every other \<open>k\<close> the buffer is unchanged.
\<close>

theorem delete_removes_target_line:
  assumes "split (strip action) = ''DELL'' # p # rest" and "py_int p = Inr k"
  shows "(1 \<le> k \<and> k \<le> length lines \<longrightarrow>
            (\<exists>r. edit lines action = Inr r \<and> length r = length lines - 1
                 \<and> r = take (k - 1) lines @ drop k lines
                 \<and> (\<forall>j < k - 1. r ! j = lines ! j)
                 \<and> (\<forall>j. k - 1 \<le> j \<and> j < length r \<longrightarrow> r ! j = lines ! (j + 1))))
       \<and> (\<not> (1 \<le> k \<and> k \<le> length lines) \<longrightarrow> edit lines action = Inr lines)"
proof (cases "1 \<le> k \<and> k \<le> length lines")
  case True
  then have e: "edit lines action = Inr (take (k - 1) lines @ drop k lines)"
    using edit_DELL[OF assms, of lines] by (simp add: pop_def)
  have len: "length (take (k - 1) lines @ drop k lines) = length lines - 1"
    using True by auto
  have lo: "\<forall>j < k - 1. (take (k - 1) lines @ drop k lines) ! j = lines ! j"
    using True by (auto simp: nth_append)
  have hi: "\<forall>j. k - 1 \<le> j \<and> j < length (take (k - 1) lines @ drop k lines)
              \<longrightarrow> (take (k - 1) lines @ drop k lines) ! j = lines ! (j + 1)"
    using True by (auto simp: nth_append min_def)
  show ?thesis using True e len lo hi by blast
next
  case False
  then have "edit lines action = Inr lines"
    using edit_DELL[OF assms, of lines] by auto
  with False show ?thesis by blast
qed

theorem delete_removes_target_line_witness:
  "split (strip ''DELL 2'') = ''DELL'' # ''2'' # [] \<and> py_int ''2'' = Inr 2
   \<and> edit [''a'', ''b'', ''c''] ''DELL 2'' = Inr [''a'', ''c'']
   \<and> split (strip ''DELL 99'') = ''DELL'' # ''99'' # [] \<and> py_int ''99'' = Inr 99
   \<and> edit [''a'', ''b''] ''DELL 99'' = Inr [''a'', ''b'']"
proof -
  have s: "split (strip ''DELL 2'') = ''DELL'' # ''2'' # []" by code_simp
  have i: "py_int ''2'' = Inr 2" by code_simp
  have s2: "split (strip ''DELL 99'') = ''DELL'' # ''99'' # []" by code_simp
  have i2: "py_int ''99'' = Inr 99" by code_simp
  show ?thesis
    using delete_removes_target_line[OF s i, of "[''a'', ''b'', ''c'']"]
          delete_removes_target_line[OF s2 i2, of "[''a'', ''b'']"] s i s2 i2
    by simp
qed

text \<open>
  Claim C9. A parsed Replace is an action whose first token is \<open>REPL\<close> and whose second
  token \<open>int\<close> reads as \<open>k\<close>; its content is the text after the first delimiter of the
  stripped action. It overwrites line \<open>k\<close> with the content if \<open>1 \<le> k \<le> N\<close> and leaves
  the buffer unchanged otherwise; and when the content equals the current text of
  line \<open>k\<close> the buffer is the original one.
\<close>

theorem replace_overwrites_in_range_only:
  assumes "split (strip action) = ''REPL'' # p # rest" and "py_int p = Inr k"
  shows "(1 \<le> k \<and> k \<le> length lines \<longrightarrow>
            edit lines action = Inr (lines[k - 1 := content_of (strip action)]))
       \<and> (\<not> (1 \<le> k \<and> k \<le> length lines) \<longrightarrow> edit lines action = Inr lines)
       \<and> (1 \<le> k \<and> k \<le> length lines \<and> content_of (strip action) = lines ! (k - 1)
            \<longrightarrow> edit lines action = Inr lines)"
proof (cases "1 \<le> k \<and> k \<le> length lines")
  case True
  then have e: "edit lines action = Inr (lines[k - 1 := content_of (strip action)])"
    using edit_REPL[OF assms, of lines] by simp
  have "content_of (strip action) = lines ! (k - 1) \<Longrightarrow> edit lines action = Inr lines"
    using e by simp
  with True e show ?thesis by blast
next
  case False
  then have "edit lines action = Inr lines"
    using edit_REPL[OF assms, of lines] by auto
  with False show ?thesis by blast
qed

theorem replace_overwrites_in_range_only_witness:
  "split (strip ''REPL 2 >>>    return a + b'') = ''REPL'' # ''2'' # [''>>>'', ''return'', ''a'', ''+'', ''b'']
   \<and> py_int ''2'' = Inr 2
   \<and> edit [''def add(a, b):'', ''    return a''] ''REPL 2 >>>    return a + b''
       = Inr [''def add(a, b):'', ''    return a + b'']
   \<and> split (strip ''REPL 99 >>>x'') = ''REPL'' # ''99'' # [''>>>x'']
   \<and> py_int ''99'' = Inr 99
   \<and> edit [''a'', ''b''] ''REPL 99 >>>x'' = Inr [''a'', ''b'']
   \<and> split (strip ''REPL 1 >>>a'') = ''REPL'' # ''1'' # [''>>>a'']
   \<and> py_int ''1'' = Inr 1
   \<and> edit [''a'', ''b''] ''REPL 1 >>>a'' = Inr [''a'', ''b'']"
proof -
  have s1: "split (strip ''REPL 2 >>>    return a + b'') = ''REPL'' # ''2'' # [''>>>'', ''return'', ''a'', ''+'', ''b'']"
    by code_simp
  have i1: "py_int ''2'' = Inr 2" by code_simp
  have c1: "content_of (strip ''REPL 2 >>>    return a + b'') = ''    return a + b''" by code_simp
  have s2: "split (strip ''REPL 99 >>>x'') = ''REPL'' # ''99'' # [''>>>x'']" by code_simp
  have i2: "py_int ''99'' = Inr 99" by code_simp
  have s3: "split (strip ''REPL 1 >>>a'') = ''REPL'' # ''1'' # [''>>>a'']" by code_simp
  have i3: "py_int ''1'' = Inr 1" by code_simp
  have c3: "content_of (strip ''REPL 1 >>>a'') = ''a''" by code_simp
  show ?thesis
    using replace_overwrites_in_range_only[OF s1 i1, of "[''def add(a, b):'', ''    return a'']"]
          replace_overwrites_in_range_only[OF s2 i2, of "[''a'', ''b'']"]
          replace_overwrites_in_range_only[OF s3 i3, of "[''a'', ''b'']"]
          s1 i1 c1 s2 i2 s3 i3 c3
    by simp
qed

text \<open>
  Claim C2, as amended. An action is ignored, with the code lines unchanged and no
  exception from the parsing, when its stripped text has a first token and (a) that
  token is none of \<open>DELL\<close>, \<open>ADDL\<close>, \<open>REPL\<close>, \<open>REPW\<close>, or (b) it is \<open>DELL\<close>, \<open>ADDL\<close> or
  \<open>REPL\<close> and the line argument is missing or fails \<open>isdigit\<close>, or (c) it is \<open>REPW\<close> and
  the text does not match the two-delimiter shape. \<open>CoEEnv.apply\<close> then does exactly
  what recomputing the feedback of the unchanged environment does. An \<open>ADDL\<close> or
  \<open>REPL\<close> with a digit line argument and no delimiter is not ignored: it inserts, or
  writes, the empty line.
\<close>

theorem malformed_action_is_noop:
  assumes "split (strip action) = verb # args"
      and "verb \<notin> set [''DELL'', ''ADDL'', ''REPL'', ''REPW'']
           \<or> (verb \<in> set [''DELL'', ''ADDL'', ''REPL''] \<and> (args = [] \<or> \<not> isdigit (hd args)))
           \<or> (verb = ''REPW'' \<and> match_repw (strip action) = None)"
  shows "edit (code_lines (state env)) action = Inr (code_lines (state env))
         \<and> CoEEnv_apply P env action = update_feedback P env"
proof -
  have e: "edit lines action = Inr lines" for lines
    using assms by (auto simp: edit_def)
  then show ?thesis
    by (simp add: CoEEnv_apply_def)
qed

theorem malformed_action_is_noop_witness:
  "split (strip ''FIX 1 >>>x'') = ''FIX'' # [''1'', ''>>>x'']
   \<and> ''FIX'' \<notin> set [''DELL'', ''ADDL'', ''REPL'', ''REPW'']
   \<and> edit [''a'', ''b''] ''FIX 1 >>>x'' = Inr [''a'', ''b'']
   \<and> split (strip ''DELL one'') = ''DELL'' # [''one'']
   \<and> \<not> isdigit (hd [''one''])
   \<and> edit [''a'', ''b''] ''DELL one'' = Inr [''a'', ''b'']
   \<and> split (strip ''REPW 1 >>>a'') = ''REPW'' # [''1'', ''>>>a'']
   \<and> match_repw (strip ''REPW 1 >>>a'') = None
   \<and> edit [''a'', ''b''] ''REPW 1 >>>a'' = Inr [''a'', ''b'']"
proof -
  define env where "env = \<lparr>state = \<lparr>code_lines = [''a'', ''b''], feedback = []\<rparr>, tests = []\<rparr>"
  have l: "code_lines (state env) = [''a'', ''b'']" by (simp add: env_def)
  have s1: "split (strip ''FIX 1 >>>x'') = ''FIX'' # [''1'', ''>>>x'']" by code_simp
  have v1: "''FIX'' \<notin> set [''DELL'', ''ADDL'', ''REPL'', ''REPW'']" by simp
  have s2: "split (strip ''DELL one'') = ''DELL'' # [''one'']" by code_simp
  have v2: "\<not> isdigit (hd [''one''])" by code_simp
  have s3: "split (strip ''REPW 1 >>>a'') = ''REPW'' # [''1'', ''>>>a'']" by code_simp
  have v3: "match_repw (strip ''REPW 1 >>>a'') = None" by code_simp
  show ?thesis
    using malformed_action_is_noop[OF s1, of env toy] malformed_action_is_noop[OF s2, of env toy]
          malformed_action_is_noop[OF s3, of env toy] l s1 v1 s2 v2 s3 v3
    by simp
qed

text \<open>
  The claim as stated fails: an empty or whitespace-only action raises IndexError at
  \<open>parts[0]\<close>, and an \<open>ADDL\<close> or \<open>REPL\<close> without the delimiter changes the buffer.
\<close>

theorem malformed_action_counterexample:
  "edit [''a''] '''' = Inl IndexError
   \<and> edit [''a''] ''   '' = Inl IndexError
   \<and> edit [''a''] ''ADDL 1'' = Inr ['''', ''a'']
   \<and> edit [''a''] ''REPL 1 x'' = Inr ['''']"
  by code_simp

text \<open>
  A line argument that passes \<open>isdigit\<close> and that \<open>int\<close> rejects raises ValueError.
\<close>

lemma superscript_digit_raises:
  "edit [''a''] (''DELL '' @ [CHR 0xB2]) = Inl ValueError"
  by code_simp

section \<open>The feedback invariant\<close>










section \<open>The typo corruption\<close>

lemma split_from_words:
  "spaceless w \<Longrightarrow> x \<in> set (split_from w cs) \<Longrightarrow> x \<noteq> [] \<and> spaceless x"
proof (induction cs arbitrary: w)
  case Nil
  then show ?case by (auto split: if_splits)
next
  case (Cons c cs)
  show ?case
  proof (cases "is_space c")
    case True
    have e: "spaceless []" by (simp add: spaceless_def)
    from Cons.prems True have "x = w \<and> w \<noteq> [] \<or> x \<in> set (split_from [] cs)"
      by (auto split: if_splits)
    then show ?thesis using Cons.IH[OF e] Cons.prems(1) by auto
  next
    case False
    then have "spaceless (w @ [c])" using Cons.prems(1) by (simp add: spaceless_def)
    moreover have "x \<in> set (split_from (w @ [c]) cs)" using Cons.prems(2) False by simp
    ultimately show ?thesis by (rule Cons.IH)
  qed
qed

lemma split_words: "x \<in> set (split s) \<Longrightarrow> x \<noteq> [] \<and> spaceless x"
  unfolding split_def by (rule split_from_words) (simp_all add: spaceless_def)

lemma split_from_spaceless: "spaceless x \<Longrightarrow> split_from w (x @ cs) = split_from (w @ x) cs"
  by (induction x arbitrary: w) (simp_all add: spaceless_def)

lemma is_space_blank: "is_space CHR '' ''"
  by (simp add: is_space_def)

lemma split_join:
  "\<forall>x \<in> set ws. x \<noteq> [] \<and> spaceless x \<Longrightarrow> split_from [] (join '' '' ws) = ws"
proof (induction "'' ''" ws rule: join.induct)
  case 1
  then show ?case by simp
next
  case (2 x)
  then show ?case using split_from_spaceless[of x "[]" "[]"] by simp
next
  case (3 x y ys)
  have "split_from [] (x @ '' '' @ join '' '' (y # ys)) = split_from x ('' '' @ join '' '' (y # ys))"
    using 3(2) split_from_spaceless[of x "[]"] by simp
  also have "\<dots> = x # split_from [] (join '' '' (y # ys))"
    using 3(2) by (simp add: is_space_blank)
  also have "\<dots> = x # y # ys"
    using 3 by simp
  finally show ?case by simp
qed

lemma strip_self:
  assumes "s = [] \<or> \<not> is_space (hd s) \<and> \<not> is_space (last s)"
  shows "strip s = s"
proof (cases "s = []")
  case True
  then show ?thesis by (simp add: strip_def rstrip_def)
next
  case False
  with assms have h: "\<not> is_space (hd s)" and l: "\<not> is_space (last s)" by simp_all
  have a: "dropWhile is_space s = s"
    using h False by (cases s) simp_all
  have b: "dropWhile is_space (rev s) = rev s"
    using l by (simp add: dropWhile_eq_self_iff hd_rev)
  show ?thesis by (simp add: strip_def rstrip_def a b)
qed

lemma hd_join: "x \<noteq> [] \<Longrightarrow> hd (join sep (x # xs)) = hd x"
  by (cases xs) simp_all

lemma join_last_nonempty: "ws \<noteq> [] \<Longrightarrow> last ws \<noteq> [] \<Longrightarrow> join sep ws \<noteq> []"
  by (induction sep ws rule: join.induct) auto

lemma last_join:
  "ws \<noteq> [] \<Longrightarrow> last ws \<noteq> [] \<Longrightarrow> last (join sep ws) = last (last ws)"
proof (induction sep ws rule: join.induct)
  case (3 sep x y ys)
  have "join sep (y # ys) \<noteq> []"
    using 3(3) by (intro join_last_nonempty) simp_all
  then have "last (x @ sep @ join sep (y # ys)) = last (join sep (y # ys))"
    by simp
  with 3 show ?case by simp
qed simp_all

lemma strip_join:
  assumes "\<forall>x \<in> set ws. x \<noteq> [] \<and> spaceless x"
  shows "strip (join '' '' ws) = join '' '' ws"
proof (cases ws)
  case Nil
  then show ?thesis by (simp add: strip_def rstrip_def)
next
  case (Cons x xs)
  have x: "x \<noteq> [] \<and> spaceless x" using assms Cons by simp
  have l: "last ws \<noteq> [] \<and> spaceless (last ws)" using assms Cons by (metis last_in_set list.distinct(1))
  have "\<not> is_space (hd (join '' '' ws))"
    using x Cons by (simp add: hd_join spaceless_def)
  moreover have "\<not> is_space (last (join '' '' ws))"
    using l Cons last_join[of ws "'' ''"] by (simp add: spaceless_def)
  ultimately show ?thesis by (intro strip_self) simp
qed

lemma lowercase_not_space: "k < length lowercase \<Longrightarrow> \<not> is_space (lowercase ! k)"
proof -
  assume "k < length lowercase"
  then have "lowercase ! k \<in> set lowercase" by (rule nth_mem)
  then show ?thesis by (auto simp: lowercase_def is_space_def)
qed

text \<open>
  Claim C10. For every line list and all draws (\<open>idx\<close> below the number of lines, \<open>wi\<close>
  below the number of words of the chosen line, so that line has at least one word,
  and a letter index \<open>k\<close>; \<open>pos\<close> is arbitrary), \<open>typo_word\<close> returns the list with line
  \<open>idx\<close> replaced by the modified words joined by single spaces and every other line
  unchanged. The new line splits into exactly the modified words, it is the
  single-space join of its own words, and stripping it changes nothing: every run
  of whitespace of the chosen line, leading indentation included, has become one
  separating space or has been dropped.
\<close>

theorem typo_word_collapses_whitespace:
  assumes "idx < length code" and "wi < length (split (code ! idx))" and "k < length lowercase"
  shows "\<exists>r w2. w2 = (if length (split (code ! idx) ! wi) > 1
                      then take pos (split (code ! idx) ! wi) @ [lowercase ! k]
                           @ drop (pos + 1) (split (code ! idx) ! wi)
                      else split (code ! idx) ! wi @ [lowercase ! k])
           \<and> typo_word code idx wi pos k = Inr r
           \<and> r = code[idx := join '' '' ((split (code ! idx))[wi := w2])]
           \<and> length r = length code
           \<and> (\<forall>j < length code. j \<noteq> idx \<longrightarrow> r ! j = code ! j)
           \<and> split (r ! idx) = (split (code ! idx))[wi := w2]
           \<and> r ! idx = join '' '' (split (r ! idx))
           \<and> strip (r ! idx) = r ! idx"
proof -
  define words where "words = split (code ! idx)"
  define w where "w = words ! wi"
  define c where "c = lowercase ! k"
  define w2 where "w2 = (if length w > 1 then take pos w @ [c] @ drop (pos + 1) w else w @ [c])"
  define new_line where "new_line = join '' '' (words[wi := w2])"
  define r where "r = code[idx := new_line]"
  have wne: "words \<noteq> []" using assms(2) by (auto simp: words_def)
  have cne: "code \<noteq> []" using assms(1) by auto
  have ch: "choice lowercase k = Inr c" using assms(3) by (simp add: choice_def c_def)
  have t: "typo_word code idx wi pos k = Inr r"
    using assms wne cne
    by (simp add: typo_word_def Let_def choice_def r_def new_line_def w2_def c_def w_def
          words_def)
  have wmem: "w \<in> set words" using assms(2) by (simp add: w_def words_def)
  then have wok: "w \<noteq> [] \<and> spaceless w" using split_words by (simp add: words_def)
  have cok: "\<not> is_space c" using lowercase_not_space[OF assms(3)] by (simp add: c_def)
  have w2ok: "w2 \<noteq> [] \<and> spaceless w2"
    using wok cok by (auto simp: w2_def spaceless_def dest: in_set_takeD in_set_dropD)
  have allok: "\<forall>x \<in> set (words[wi := w2]). x \<noteq> [] \<and> spaceless x"
  proof
    fix x assume "x \<in> set (words[wi := w2])"
    then have "x = w2 \<or> x \<in> set words"
      using set_update_subset_insert[of words wi w2] by auto
    then show "x \<noteq> [] \<and> spaceless x" using w2ok split_words by (auto simp: words_def)
  qed
  have ridx: "r ! idx = new_line" using assms(1) by (simp add: r_def)
  have sp: "split (r ! idx) = words[wi := w2]"
    using split_join[OF allok] by (simp add: ridx new_line_def split_def)
  have nf: "r ! idx = join '' '' (split (r ! idx))"
    using sp ridx by (simp add: new_line_def)
  have others: "\<forall>j < length code. j \<noteq> idx \<longrightarrow> r ! j = code ! j"
    by (simp add: r_def)
  have st: "strip (r ! idx) = r ! idx"
    using strip_join[OF allok] by (simp add: ridx new_line_def)
  show ?thesis
    using t sp nf others st
    unfolding r_def new_line_def w2_def c_def w_def words_def by simp
qed

theorem typo_word_collapses_whitespace_witness:
  "(1::nat) < length [''x = 1'', ''    return  a +  b '']
   \<and> (0::nat) < length (split ([''x = 1'', ''    return  a +  b ''] ! 1))
   \<and> (25::nat) < length lowercase
   \<and> typo_word [''x = 1'', ''    return  a +  b ''] 1 0 2 25 = Inr [''x = 1'', ''rezurn a + b'']"
proof -
  have h1: "(1::nat) < length [''x = 1'', ''    return  a +  b '']" by simp
  have h2: "(0::nat) < length (split ([''x = 1'', ''    return  a +  b ''] ! 1))" by code_simp
  have h3: "(25::nat) < length lowercase" by (simp add: lowercase_def)
  have v: "typo_word [''x = 1'', ''    return  a +  b ''] 1 0 2 25 = Inr [''x = 1'', ''rezurn a + b'']"
    by code_simp
  from typo_word_collapses_whitespace[OF h1 h2 h3, of 2] h1 h2 h3 v show ?thesis by simp
qed

section \<open>Decimal numerals and the actions the synthesizer writes\<close>















section \<open>The trace of a single delete\<close>











section \<open>The rollout\<close>

lemma replay_snoc:
  "replay P env (as @ [a]) =
     (case replay P env as of Inl x \<Rightarrow> Inl x | Inr b \<Rightarrow> CoEEnv_apply P b a)"
  by (induction as arbitrary: env) (auto split: sum.splits)

lemma rollout_loop_Suc:
  "rollout_loop P pol env t (Suc n) traj =
     (case CoEEnv_apply P env (next_action pol t env) of
        Inl x \<Rightarrow> Inl x
      | Inr env1 \<Rightarrow>
          if prefix ''EXIT'' (next_action pol t env)
          then Inr (env1, traj @ [recorded_step pol t env env1])
          else rollout_loop P pol env1 (t + 1) n (traj @ [recorded_step pol t env env1]))"
  by (simp add: Let_def next_action_def recorded_step_def turn_reward_def split: sum.splits)

lemma rollout_loop_steps:
  "rollout_loop P pol env t n traj = Inr (env', traj') \<Longrightarrow>
     \<exists>new. traj' = traj @ new \<and> length new \<le> n
       \<and> replay P env (map step_action new) = Inr env'
       \<and> (\<forall>i. Suc i < length new \<longrightarrow> \<not> prefix ''EXIT'' (step_action (new ! i)))
       \<and> (\<forall>i < length new. \<exists>b a.
             replay P env (map step_action (take i new)) = Inr b
           \<and> CoEEnv_apply P b (step_action (new ! i)) = Inr a
           \<and> step_reward (new ! i)
               = turn_reward (feedback (state b)) (feedback (state a)) (step_action (new ! i)))"
proof (induction n arbitrary: env t traj)
  case 0
  then show ?case by simp
next
  case (Suc n)
  define action where "action = next_action pol t env"
  from Suc.prems obtain env1 where ap: "CoEEnv_apply P env action = Inr env1"
    by (auto simp: rollout_loop_Suc action_def simp del: rollout_loop.simps split: sum.splits)
  define s1 where "s1 = recorded_step pol t env env1"
  have s1a: "step_action s1 = action"
    and s1r: "step_reward s1 = turn_reward (feedback (state env)) (feedback (state env1)) action"
    by (simp_all add: s1_def recorded_step_def action_def)
  have unfold: "rollout_loop P pol env t (Suc n) traj =
      (if prefix ''EXIT'' action then Inr (env1, traj @ [s1])
       else rollout_loop P pol env1 (t + 1) n (traj @ [s1]))"
    using ap by (simp add: rollout_loop_Suc action_def s1_def del: rollout_loop.simps)
  show ?case
  proof (cases "prefix ''EXIT'' action")
    case True
    with Suc.prems unfold have e: "env' = env1" "traj' = traj @ [s1]" by simp_all
    show ?thesis
      by (rule exI[of _ "[s1]"]) (simp add: e s1a s1r ap)
  next
    case False
    with Suc.prems unfold
    have "rollout_loop P pol env1 (t + 1) n (traj @ [s1]) = Inr (env', traj')" by simp
    from Suc.IH[OF this] obtain new where
      n1: "traj' = (traj @ [s1]) @ new" and n2: "length new \<le> n"
      and n3: "replay P env1 (map step_action new) = Inr env'"
      and n4: "\<forall>i. Suc i < length new \<longrightarrow> \<not> prefix ''EXIT'' (step_action (new ! i))"
      and n5: "\<forall>i < length new. \<exists>b a.
             replay P env1 (map step_action (take i new)) = Inr b
           \<and> CoEEnv_apply P b (step_action (new ! i)) = Inr a
           \<and> step_reward (new ! i)
               = turn_reward (feedback (state b)) (feedback (state a)) (step_action (new ! i))"
      by blast
    have a: "traj' = traj @ (s1 # new)" using n1 by simp
    have b: "length (s1 # new) \<le> Suc n" using n2 by simp
    have c: "replay P env (map step_action (s1 # new)) = Inr env'"
      using n3 ap by (simp add: s1a)
    have d: "\<forall>i. Suc i < length (s1 # new)
               \<longrightarrow> \<not> prefix ''EXIT'' (step_action ((s1 # new) ! i))"
    proof (intro allI impI)
      fix i assume "Suc i < length (s1 # new)"
      then show "\<not> prefix ''EXIT'' (step_action ((s1 # new) ! i))"
        using False n4 by (cases i) (simp_all add: s1a)
    qed
    have e: "\<forall>i < length (s1 # new). \<exists>b a.
             replay P env (map step_action (take i (s1 # new))) = Inr b
           \<and> CoEEnv_apply P b (step_action ((s1 # new) ! i)) = Inr a
           \<and> step_reward ((s1 # new) ! i)
               = turn_reward (feedback (state b)) (feedback (state a))
                   (step_action ((s1 # new) ! i))"
    proof (intro allI impI)
      fix i assume i: "i < length (s1 # new)"
      show "\<exists>b a.
             replay P env (map step_action (take i (s1 # new))) = Inr b
           \<and> CoEEnv_apply P b (step_action ((s1 # new) ! i)) = Inr a
           \<and> step_reward ((s1 # new) ! i)
               = turn_reward (feedback (state b)) (feedback (state a))
                   (step_action ((s1 # new) ! i))"
      proof (cases i)
        case 0
        then show ?thesis using ap by (simp add: s1a s1r)
      next
        case (Suc j)
        with i have "j < length new" by simp
        with n5 show ?thesis using Suc ap by (simp add: s1a)
      qed
    qed
    from a b c d e show ?thesis by blast
  qed
qed

lemma rollout_one_cases:
  assumes "rollout_one P pol lines ts m = Inr traj"
  shows "\<exists>env0 env' traj0.
           CoEEnv_init P lines ts = Inr env0
         \<and> rollout_loop P pol env0 0 m [] = Inr (env', traj0)
         \<and> length traj = length traj0
         \<and> map step_action traj = map step_action traj0
         \<and> (\<forall>i < length traj. step_reward (traj ! i)
               = step_reward (traj0 ! i)
                 - (if Suc i = length traj0 \<and> feedback (state env') = []
                       \<and> \<not> prefix ''EXIT'' (step_action (traj0 ! i))
                    then 1 / 2 else 0))"
proof -
  from assms obtain env0 where i: "CoEEnv_init P lines ts = Inr env0"
    by (auto simp: rollout_one_def split: sum.splits)
  from assms i obtain env' traj0 where l: "rollout_loop P pol env0 0 m [] = Inr (env', traj0)"
    by (auto simp: rollout_one_def split: sum.splits)
  show ?thesis
  proof (cases "feedback (state env') = [] \<and> \<not> prefix ''EXIT'' (step_action (last traj0))")
    case True
    with assms i l have ne: "traj0 \<noteq> []"
      by (auto simp: rollout_one_def split: if_splits)
    with assms i l True have t: "traj = traj0[length traj0 - 1 :=
        (last traj0)\<lparr>step_reward := step_reward (last traj0) - 1 / 2\<rparr>]"
      by (auto simp: rollout_one_def split: if_splits)
    have len: "length traj = length traj0" by (simp add: t)
    have acts: "map step_action traj = map step_action traj0"
    proof (rule nth_equalityI)
      show "length (map step_action traj) = length (map step_action traj0)" by (simp add: len)
    next
      fix k assume "k < length (map step_action traj)"
      then have k: "k < length traj0" by (simp add: len)
      show "map step_action traj ! k = map step_action traj0 ! k"
        using k ne by (cases "k = length traj0 - 1") (simp_all add: t last_conv_nth)
    qed
    have rew: "\<forall>k < length traj. step_reward (traj ! k)
               = step_reward (traj0 ! k)
                 - (if Suc k = length traj0 \<and> feedback (state env') = []
                       \<and> \<not> prefix ''EXIT'' (step_action (traj0 ! k))
                    then 1 / 2 else 0)"
    proof (intro allI impI)
      fix k assume "k < length traj"
      then have k: "k < length traj0" by (simp add: len)
      show "step_reward (traj ! k)
               = step_reward (traj0 ! k)
                 - (if Suc k = length traj0 \<and> feedback (state env') = []
                       \<and> \<not> prefix ''EXIT'' (step_action (traj0 ! k))
                    then 1 / 2 else 0)"
      proof (cases "Suc k = length traj0")
        case True
        then have "k = length traj0 - 1" by simp
        then show ?thesis using \<open>feedback (state env') = [] \<and> _\<close> ne k
          by (simp add: t last_conv_nth)
      next
        case False
        then have "k \<noteq> length traj0 - 1" using k by simp
        then show ?thesis using False by (simp add: t)
      qed
    qed
    from i l len acts rew show ?thesis by blast
  next
    case False
    with assms i l have t: "traj = traj0"
      by (auto simp: rollout_one_def split: if_splits)
    have "\<forall>k < length traj0. \<not> (Suc k = length traj0 \<and> feedback (state env') = []
                       \<and> \<not> prefix ''EXIT'' (step_action (traj0 ! k)))"
    proof (intro allI impI notI)
      fix k assume "k < length traj0"
        and c: "Suc k = length traj0 \<and> feedback (state env') = []
                       \<and> \<not> prefix ''EXIT'' (step_action (traj0 ! k))"
      then have "last traj0 = traj0 ! k"
        by (metis diff_Suc_1 last_conv_nth length_0_conv not_less_zero)
      with c False show False by simp
    qed
    with i l t show ?thesis by auto
  qed
qed




text \<open>
  Claim C5, as amended. In a trajectory the rollout returns, step \<open>i\<close> was taken in the
  environment \<open>b\<close> reached by the earlier actions and led to the environment \<open>a\<close>; its
  reward is 1 exactly when the feedback went from non-empty in \<open>b\<close> to empty in \<open>a\<close>
  (0 otherwise), less 1/2 when the action text does not start with one of the strings
  \<open>DELL\<close>, \<open>ADDL\<close>, \<open>REPL\<close>, \<open>REPW\<close>, \<open>EXIT\<close>, and, for the last step only, less
  another 1/2 when the final feedback is empty and the action text does not start
  with \<open>EXIT\<close>.
\<close>

theorem rollout_step_rewards:
  assumes "CoEEnv_init P lines ts = Inr env0"
      and "rollout_one P pol lines ts max_turns = Inr traj"
      and "i < length traj"
  shows "\<exists>b a. replay P env0 (map step_action (take i traj)) = Inr b
             \<and> CoEEnv_apply P b (step_action (traj ! i)) = Inr a
             \<and> step_reward (traj ! i)
                 = (if feedback (state a) = [] \<and> feedback (state b) \<noteq> [] then 1 else 0)
                   - (if starts_with_verb (step_action (traj ! i)) then 0 else 1 / 2)
                   - (if Suc i = length traj \<and> feedback (state a) = []
                         \<and> \<not> prefix ''EXIT'' (step_action (traj ! i))
                      then 1 / 2 else 0)"
proof -
  from rollout_one_cases[OF assms(2)] assms(1) obtain env' traj0 where
    l: "rollout_loop P pol env0 0 max_turns [] = Inr (env', traj0)"
    and len: "length traj = length traj0"
    and acts: "map step_action traj = map step_action traj0"
    and rew: "\<forall>k < length traj. step_reward (traj ! k)
               = step_reward (traj0 ! k)
                 - (if Suc k = length traj0 \<and> feedback (state env') = []
                       \<and> \<not> prefix ''EXIT'' (step_action (traj0 ! k))
                    then 1 / 2 else 0)" by auto
  have i0: "i < length traj0" using assms(3) len by simp
  from rollout_loop_steps[OF l] have
    fin: "replay P env0 (map step_action traj0) = Inr env'"
    and st: "\<forall>k < length traj0. \<exists>b a.
             replay P env0 (map step_action (take k traj0)) = Inr b
           \<and> CoEEnv_apply P b (step_action (traj0 ! k)) = Inr a
           \<and> step_reward (traj0 ! k)
               = turn_reward (feedback (state b)) (feedback (state a)) (step_action (traj0 ! k))"
    by auto
  from st i0 obtain b a where
    rb: "replay P env0 (map step_action (take i traj0)) = Inr b"
    and ra: "CoEEnv_apply P b (step_action (traj0 ! i)) = Inr a"
    and rr: "step_reward (traj0 ! i)
               = turn_reward (feedback (state b)) (feedback (state a)) (step_action (traj0 ! i))"
    by blast
  have act: "step_action (traj ! i) = step_action (traj0 ! i)"
    using acts assms(3) len by (metis nth_map)
  have tk: "map step_action (take i traj) = map step_action (take i traj0)"
    using acts by (simp add: take_map[symmetric])
  have last_env: "a = env'" if "Suc i = length traj0"
  proof -
    have "traj0 = take i traj0 @ [traj0 ! i]"
      using that i0 by (metis take_Suc_conv_app_nth take_all order_refl)
    then have "map step_action traj0 = map step_action (take i traj0) @ [step_action (traj0 ! i)]"
      by (metis list.simps(8,9) map_append)
    with fin have "(case replay P env0 (map step_action (take i traj0)) of
                     Inl x \<Rightarrow> Inl x | Inr b \<Rightarrow> CoEEnv_apply P b (step_action (traj0 ! i)))
                   = Inr env'"
      by (simp add: replay_snoc)
    with rb ra show ?thesis by simp
  qed
  have "step_reward (traj ! i)
          = turn_reward (feedback (state b)) (feedback (state a)) (step_action (traj ! i))
            - (if Suc i = length traj \<and> feedback (state a) = []
                  \<and> \<not> prefix ''EXIT'' (step_action (traj ! i))
               then 1 / 2 else 0)"
    using rew assms(3) rr act len last_env by auto
  then show ?thesis
    using rb ra tk act by (auto simp: turn_reward_def)
qed

theorem rollout_step_rewards_witness:
  "CoEEnv_init toy [''y''] [''assert x'']
     = Inr \<lparr>state = \<lparr>code_lines = [''y''],
              feedback = ''Test 1 failed!\<newline>Test code:\<newline>assert x\<newline>Error: AssertionError()''\<rparr>,
            tests = [''assert x'']\<rparr>
   \<and> rollout_one toy (scripted [''FOO'', ''REPL 1 >>>x'']) [''y''] [''assert x''] 2
     = Inr [\<lparr>step_prompt = ''L 1 y\<newline>***\<newline>Test 1 failed!\<newline>Test code:\<newline>assert x\<newline>Error: AssertionError()\<newline>### '',
             step_action = ''FOO'', step_logp = (), step_reward = - (1 / 2)\<rparr>,
            \<lparr>step_prompt = ''L 1 y\<newline>***\<newline>Test 1 failed!\<newline>Test code:\<newline>assert x\<newline>Error: AssertionError()\<newline>### '',
             step_action = ''REPL 1 >>>x'', step_logp = (), step_reward = 1 / 2\<rparr>]
   \<and> (1::nat) < 2"
proof -
  define E where "E = \<lparr>state = \<lparr>code_lines = [''y''],
              feedback = ''Test 1 failed!\<newline>Test code:\<newline>assert x\<newline>Error: AssertionError()''\<rparr>,
            tests = [''assert x'']\<rparr>"
  define T where "T = [\<lparr>step_prompt = ''L 1 y\<newline>***\<newline>Test 1 failed!\<newline>Test code:\<newline>assert x\<newline>Error: AssertionError()\<newline>### '',
             step_action = ''FOO'', step_logp = (), step_reward = - (1 / 2 :: real)\<rparr>,
            \<lparr>step_prompt = ''L 1 y\<newline>***\<newline>Test 1 failed!\<newline>Test code:\<newline>assert x\<newline>Error: AssertionError()\<newline>### '',
             step_action = ''REPL 1 >>>x'', step_logp = (), step_reward = 1 / 2\<rparr>]"
  have c: "CoEEnv_init toy [''y''] [''assert x''] = Inr E"
    unfolding E_def by code_simp
  have r: "rollout_one toy (scripted [''FOO'', ''REPL 1 >>>x'']) [''y''] [''assert x''] 2 = Inr T"
    unfolding T_def by code_simp
  have i: "1 < length T" by (simp add: T_def)
  from rollout_step_rewards[OF c r i] c r show ?thesis by (simp add: T_def E_def)
qed

text \<open>
  The claim as stated fails: the leading token \<open>DELLX\<close> is not a command verb, and
  the step carries no penalty, because the text starts with \<open>DELL\<close>.
\<close>

theorem leading_token_penalty_counterexample:
  "\<not> leading_token_is_verb ''DELLX 1''
   \<and> rollout_one toy (scripted [''DELLX 1'']) [''y''] [''assert x''] 1
     = Inr [\<lparr>step_prompt = ''L 1 y\<newline>***\<newline>Test 1 failed!\<newline>Test code:\<newline>assert x\<newline>Error: AssertionError()\<newline>### '',
             step_action = ''DELLX 1'', step_logp = (), step_reward = 0\<rparr>]"
  by code_simp

text \<open>
  With no turn and empty initial feedback the penalty reads \<open>traj[-1]\<close> of an empty
  trajectory.
\<close>

lemma rollout_without_turns_raises:
  "rollout_one toy (scripted []) [''x''] [''assert x''] 0 = Inl IndexError"
  by code_simp

section \<open>Returns and advantages\<close>

lemma return_at_Cons_Suc: "return_at gamma (s # traj) (Suc t) = return_at gamma traj t"
  by (simp add: return_at_def)

lemma return_at_0: "return_at gamma traj 0 = disc_return gamma (map step_reward traj)"
  by (simp add: return_at_def)

lemma returns_fold:
  "foldr (\<lambda>st (future, R).
            let future' = step_reward st + gamma * future in (future', future' # R))
         traj (0, [])
   = (disc_return gamma (map step_reward traj),
      map (return_at gamma traj) [0 ..< length traj])"
proof (induction traj)
  case Nil
  then show ?case by simp
next
  case (Cons s traj)
  have "map (return_at gamma (s # traj)) [0 ..< length (s # traj)]
          = return_at gamma (s # traj) 0 # map (return_at gamma (s # traj)) (map Suc [0 ..< length traj])"
    by (simp add: upt_conv_Cons map_Suc_upt del: upt_Suc)
  also have "\<dots> = disc_return gamma (map step_reward (s # traj))
                    # map (return_at gamma traj) [0 ..< length traj]"
    by (simp add: return_at_0 return_at_Cons_Suc comp_def)
  finally show ?case using Cons by (simp add: Let_def)
qed

lemma returns_of_eq:
  "returns_of gamma traj = map (return_at gamma traj) [0 ..< length traj]"
  by (simp add: returns_of_def returns_fold foldr_conv_fold[symmetric])

lemma return_at_step:
  "return_at gamma traj t =
     (if t < length traj then step_reward (traj ! t) + gamma * return_at gamma traj (t + 1) else 0)"
proof (cases "t < length traj")
  case True
  then have "drop t (map step_reward traj) = step_reward (traj ! t) # drop (Suc t) (map step_reward traj)"
    using Cons_nth_drop_Suc[of t "map step_reward traj"] by simp
  with True show ?thesis by (simp add: return_at_def)
next
  case False
  then show ?thesis by (simp add: return_at_def)
qed

lemma append_at_indices:
  assumes "distinct idxs" and "\<forall>x \<in> set idxs. x < length A"
      and "\<forall>j < length idxs. vals ! (k + j) = v (idxs ! j)"
  shows "length (fold (\<lambda>(j, idx) A. A[idx := A ! idx @ [c (vals ! j)]]) (enumerate k idxs) A)
           = length A
       \<and> (\<forall>i < length A.
            fold (\<lambda>(j, idx) A. A[idx := A ! idx @ [c (vals ! j)]]) (enumerate k idxs) A ! i
              = (if i \<in> set idxs then A ! i @ [c (v i)] else A ! i))"
  using assms
proof (induction idxs arbitrary: k A)
  case Nil
  then show ?case by simp
next
  case (Cons x xs)
  define A1 where "A1 = A[x := A ! x @ [c (vals ! k)]]"
  have vk: "vals ! k = v x" using Cons.prems(3) by force
  have d: "distinct xs" and nx: "x \<notin> set xs" using Cons.prems(1) by simp_all
  have b: "\<forall>y \<in> set xs. y < length A1" using Cons.prems(2) by (simp add: A1_def)
  have sh: "\<forall>j < length xs. vals ! (Suc k + j) = v (xs ! j)"
  proof (intro allI impI)
    fix j assume "j < length xs"
    then have "Suc j < length (x # xs)" by simp
    with Cons.prems(3) have "vals ! (k + Suc j) = v ((x # xs) ! Suc j)" by blast
    then show "vals ! (Suc k + j) = v (xs ! j)" by simp
  qed
  have step: "fold (\<lambda>(j, idx) A. A[idx := A ! idx @ [c (vals ! j)]]) (enumerate k (x # xs)) A
            = fold (\<lambda>(j, idx) A. A[idx := A ! idx @ [c (vals ! j)]]) (enumerate (Suc k) xs) A1"
    by (simp add: A1_def)
  from Cons.IH[OF d b sh] have
    l: "length (fold (\<lambda>(j, idx) A. A[idx := A ! idx @ [c (vals ! j)]]) (enumerate (Suc k) xs) A1)
          = length A1"
    and e: "\<forall>i < length A1.
            fold (\<lambda>(j, idx) A. A[idx := A ! idx @ [c (vals ! j)]]) (enumerate (Suc k) xs) A1 ! i
              = (if i \<in> set xs then A1 ! i @ [c (v i)] else A1 ! i)"
    by simp_all
  have xl: "x < length A" using Cons.prems(2) by simp
  show ?case
  proof (intro conjI allI impI)
    show "length (fold (\<lambda>(j, idx) A. A[idx := A ! idx @ [c (vals ! j)]]) (enumerate k (x # xs)) A)
            = length A"
      using l by (simp only: step) (simp add: A1_def)
  next
    fix i assume i: "i < length A"
    then have i1: "i < length A1" by (simp add: A1_def)
    show "fold (\<lambda>(j, idx) A. A[idx := A ! idx @ [c (vals ! j)]]) (enumerate k (x # xs)) A ! i
            = (if i \<in> set (x # xs) then A ! i @ [c (v i)] else A ! i)"
    proof (cases "i = x")
      case True
      with e i1 nx have "fold (\<lambda>(j, idx) A. A[idx := A ! idx @ [c (vals ! j)]])
                           (enumerate (Suc k) xs) A1 ! i = A1 ! x" by simp
      also have "\<dots> = A ! x @ [c (v x)]" using xl by (simp add: A1_def vk)
      finally show ?thesis using True by (simp only: step) simp
    next
      case False
      then have "A1 ! i = A ! i" by (simp add: A1_def)
      with e i1 False show ?thesis by (simp only: step) simp
    qed
  qed
qed

lemma advantages_turn_nth:
  assumes "length A = length Rs"
  shows "length (advantages_turn Rs t A) = length Rs
       \<and> (\<forall>i < length Rs. advantages_turn Rs t A ! i
            = (if t < length (Rs ! i)
               then A ! i @ [(Rs ! i ! t
                               - fst (turn_stats (map (\<lambda>i. Rs ! i ! t)
                                       (filter (\<lambda>i. t < length (Rs ! i)) [0 ..< length Rs]))))
                             / snd (turn_stats (map (\<lambda>i. Rs ! i ! t)
                                       (filter (\<lambda>i. t < length (Rs ! i)) [0 ..< length Rs])))]
               else A ! i))"
proof -
  define idxs where "idxs = filter (\<lambda>i. t < length (Rs ! i)) [0 ..< length Rs]"
  define vals where "vals = map (\<lambda>i. Rs ! i ! t) idxs"
  define mu where "mu = fst (turn_stats vals)"
  define sigma where "sigma = snd (turn_stats vals)"
  have d: "distinct idxs" by (simp add: idxs_def)
  have b: "\<forall>x \<in> set idxs. x < length A" using assms by (simp add: idxs_def)
  have v: "\<forall>j < length idxs. vals ! (0 + j) = (\<lambda>i. Rs ! i ! t) (idxs ! j)"
    by (simp add: vals_def)
  have unfold: "advantages_turn Rs t A
      = fold (\<lambda>(j, idx) A. A[idx := A ! idx @ [(\<lambda>x. (x - mu) / sigma) (vals ! j)]])
             (enumerate 0 idxs) A"
    by (simp add: advantages_turn_def Let_def idxs_def vals_def mu_def sigma_def)
  from append_at_indices[OF d b v, of "\<lambda>x. (x - mu) / sigma"]
  have l: "length (advantages_turn Rs t A) = length A"
    and e: "\<forall>i < length A. advantages_turn Rs t A ! i
              = (if i \<in> set idxs then A ! i @ [(Rs ! i ! t - mu) / sigma] else A ! i)"
    unfolding unfold by simp_all
  have mem: "i \<in> set idxs \<longleftrightarrow> t < length (Rs ! i)" if "i < length Rs" for i
    using that by (simp add: idxs_def)
  show ?thesis
    using l e mem assms unfolding mu_def sigma_def vals_def idxs_def by simp
qed

lemma advantages_turn_appends:
  assumes "length A = length Rs"
  shows "length (advantages_turn Rs t A) = length Rs"
    and "i < length Rs \<Longrightarrow> advantages_turn Rs t A ! i
            = (if t < length (Rs ! i) then A ! i @ [appended_value Rs i t] else A ! i)"
  using advantages_turn_nth[OF assms, of t]
  by (simp_all add: appended_value_def turn_values_def)

lemma advantages_loop:
  assumes "length A0 = length Rs" and "\<forall>i < length Rs. A0 ! i = []"
  shows "length (fold (advantages_turn Rs) [0 ..< T] A0) = length Rs
       \<and> (\<forall>i < length Rs. fold (advantages_turn Rs) [0 ..< T] A0 ! i
            = map (appended_value Rs i) [0 ..< min T (length (Rs ! i))])"
proof (induction T)
  case 0
  then show ?case using assms by simp
next
  case (Suc T)
  define A where "A = fold (advantages_turn Rs) [0 ..< T] A0"
  have l: "length A = length Rs"
    and e: "\<forall>i < length Rs. A ! i = map (appended_value Rs i) [0 ..< min T (length (Rs ! i))]"
    using Suc by (simp_all add: A_def)
  have step: "fold (advantages_turn Rs) [0 ..< Suc T] A0 = advantages_turn Rs T A"
    by (simp add: A_def)
  show ?case
  proof (intro conjI allI impI)
    show "length (fold (advantages_turn Rs) [0 ..< Suc T] A0) = length Rs"
      using advantages_turn_appends(1)[OF l] by (simp only: step)
  next
    fix i assume i: "i < length Rs"
    show "fold (advantages_turn Rs) [0 ..< Suc T] A0 ! i
            = map (appended_value Rs i) [0 ..< min (Suc T) (length (Rs ! i))]"
    proof (cases "T < length (Rs ! i)")
      case True
      then have m: "min T (length (Rs ! i)) = T" "min (Suc T) (length (Rs ! i)) = Suc T"
        by simp_all
      show ?thesis
        using advantages_turn_appends(2)[OF l i, of T] True e i
        by (simp only: step m) simp
    next
      case False
      then have m: "min T (length (Rs ! i)) = length (Rs ! i)"
        "min (Suc T) (length (Rs ! i)) = length (Rs ! i)" by simp_all
      show ?thesis
        using advantages_turn_appends(2)[OF l i, of T] False e i
        by (simp only: step m) simp
    qed
  qed
qed

lemma advantages_of_nth:
  assumes "i < length trajs"
  shows "advantages_of gamma trajs ! i
           = map (appended_value (map (returns_of gamma) trajs) i) [0 ..< length (trajs ! i)]"
proof -
  define Rs where "Rs = map (returns_of gamma) trajs"
  define T where "T = Max (set (map length trajs))"
  have lr: "length (Rs ! i) = length (trajs ! i)"
    using assms by (simp add: Rs_def returns_of_eq)
  have "length (trajs ! i) \<in> set (map length trajs)" using assms by simp
  then have "length (trajs ! i) \<le> T" unfolding T_def by (intro Max_ge) simp_all
  then have m: "min T (length (Rs ! i)) = length (trajs ! i)" using lr by simp
  have a: "advantages_of gamma trajs
             = fold (advantages_turn Rs) [0 ..< T] (replicate (length Rs) [])"
    by (simp add: advantages_of_def Let_def Rs_def T_def)
  have i': "i < length Rs" using assms by (simp add: Rs_def)
  from advantages_loop[of "replicate (length Rs) []" Rs T] i'
  have "fold (advantages_turn Rs) [0 ..< T] (replicate (length Rs) []) ! i
          = map (appended_value Rs i) [0 ..< min T (length (Rs ! i))]" by simp
  then have "advantages_of gamma trajs ! i = map (appended_value Rs i) [0 ..< length (trajs ! i)]"
    by (simp only: a m)
  then show ?thesis by (simp only: Rs_def)
qed

lemma filter_map_indices:
  "map (\<lambda>i. f (xs ! i)) (filter (\<lambda>i. p (xs ! i)) [0 ..< length xs]) = map f (filter p xs)"
proof -
  have "map f (filter p xs) = map f (filter p (map (nth xs) [0 ..< length xs]))"
    by (simp add: map_nth)
  also have "\<dots> = map (\<lambda>i. f (xs ! i)) (filter (\<lambda>i. p (xs ! i)) [0 ..< length xs])"
    by (simp add: filter_map comp_def)
  finally show ?thesis by simp
qed

lemma turn_values_peers:
  "turn_values (map (returns_of gamma) trajs) t = peer_returns gamma trajs t"
proof -
  have "turn_values (map (returns_of gamma) trajs) t
          = map (\<lambda>i. return_at gamma (trajs ! i) t)
                (filter (\<lambda>i. t < length (trajs ! i)) [0 ..< length trajs])"
    unfolding turn_values_def
    by (auto simp: returns_of_eq intro!: map_cong filter_cong)
  also have "\<dots> = peer_returns gamma trajs t"
    unfolding peer_returns_def
    by (rule filter_map_indices[of "\<lambda>traj. return_at gamma traj t" trajs "\<lambda>traj. t < length traj"])
  finally show ?thesis .
qed

lemma turn_stats_spec:
  "vals \<noteq> [] \<Longrightarrow> turn_stats vals = (mean vals, sample_sd vals)"
proof -
  assume "vals \<noteq> []"
  then have "length vals \<noteq> 0" by simp
  then have "length vals = 1 \<or> length vals \<ge> 2" by arith
  then show ?thesis
  proof
    assume l: "length vals = 1"
    then obtain v where "vals = [v]" by (cases vals) auto
    then show ?thesis by (simp add: turn_stats_def mean_def sample_sd_def)
  next
    assume "length vals \<ge> 2"
    then show ?thesis by (simp add: turn_stats_def mean_def sample_sd_def Let_def)
  qed
qed

lemma appended_value_spec:
  assumes "i < length trajs" and "t < length (trajs ! i)"
  shows "appended_value (map (returns_of gamma) trajs) i t = spec_advantage gamma trajs i t"
proof -
  have "trajs ! i \<in> set (filter (\<lambda>traj. t < length traj) trajs)"
    using assms by simp
  then have ne: "peer_returns gamma trajs t \<noteq> []"
    unfolding peer_returns_def by (metis Nil_is_map_conv empty_iff list.set(1))
  have r: "map (returns_of gamma) trajs ! i ! t = return_at gamma (trajs ! i) t"
    using assms by (simp add: returns_of_eq)
  show ?thesis
    by (simp add: appended_value_def spec_advantage_def turn_values_peers
          turn_stats_spec[OF ne] r)
qed

lemma peer_member:
  assumes "i < length trajs" and "t < length (trajs ! i)"
  shows "return_at gamma (trajs ! i) t \<in> set (peer_returns gamma trajs t)"
  using assms by (auto simp: peer_returns_def)

lemma mean_constant:
  assumes "vals \<noteq> []" and "\<forall>x \<in> set vals. x = v"
  shows "mean vals = v"
proof -
  have "sum_list vals = real (length vals) * v"
    using assms(2) by (induction vals) (simp_all add: algebra_simps)
  then show ?thesis using assms(1) by (simp add: mean_def)
qed

lemma flat_steps_spec:
  assumes "trajs \<noteq> []"
  shows "compute_returns_and_advantages trajs gamma
       = Inr (concat (map (\<lambda>(i, traj).
                map (\<lambda>(t, st).
                       \<lparr>flat_prompt = step_prompt st, flat_action = step_action st,
                        old_logp = step_logp st, adv = spec_advantage gamma trajs i t\<rparr>)
                    (enumerate 0 traj))
             (enumerate 0 trajs)))"
proof -
  have inner: "map (\<lambda>(t, st).
                       \<lparr>flat_prompt = step_prompt st, flat_action = step_action st,
                        old_logp = step_logp st,
                        adv = (if t < length (advantages_of gamma trajs ! i)
                               then advantages_of gamma trajs ! i ! t else 0)\<rparr>)
                    (enumerate 0 traj)
             = map (\<lambda>(t, st).
                       \<lparr>flat_prompt = step_prompt st, flat_action = step_action st,
                        old_logp = step_logp st, adv = spec_advantage gamma trajs i t\<rparr>)
                    (enumerate 0 traj)"
    if p: "(i, traj) \<in> set (enumerate 0 trajs)" for i traj
  proof (rule map_cong[OF refl])
    fix x assume x: "x \<in> set (enumerate 0 traj)"
    obtain t st where xe: "x = (t, st)" by (cases x)
    from p have i: "i < length trajs" and tr: "trajs ! i = traj"
      by (simp_all add: in_set_enumerate_eq)
    from x xe have t: "t < length traj" by (simp add: in_set_enumerate_eq)
    have a: "advantages_of gamma trajs ! i
               = map (appended_value (map (returns_of gamma) trajs) i) [0 ..< length traj]"
      using advantages_of_nth[OF i, of gamma] tr by simp
    have "advantages_of gamma trajs ! i ! t = spec_advantage gamma trajs i t"
      using appended_value_spec[OF i, of t gamma] t tr by (simp add: a)
    moreover have "t < length (advantages_of gamma trajs ! i)" using t by (simp add: a)
    ultimately show "(case x of (t, st) \<Rightarrow>
                       \<lparr>flat_prompt = step_prompt st, flat_action = step_action st,
                        old_logp = step_logp st,
                        adv = (if t < length (advantages_of gamma trajs ! i)
                               then advantages_of gamma trajs ! i ! t else 0)\<rparr>)
             = (case x of (t, st) \<Rightarrow>
                       \<lparr>flat_prompt = step_prompt st, flat_action = step_action st,
                        old_logp = step_logp st, adv = spec_advantage gamma trajs i t\<rparr>)"
      by (simp add: xe)
  qed
  have "map (\<lambda>(i, traj). map (\<lambda>(t, st).
                       \<lparr>flat_prompt = step_prompt st, flat_action = step_action st,
                        old_logp = step_logp st,
                        adv = (if t < length (advantages_of gamma trajs ! i)
                               then advantages_of gamma trajs ! i ! t else 0)\<rparr>)
                    (enumerate 0 traj)) (enumerate 0 trajs)
      = map (\<lambda>(i, traj). map (\<lambda>(t, st).
                       \<lparr>flat_prompt = step_prompt st, flat_action = step_action st,
                        old_logp = step_logp st, adv = spec_advantage gamma trajs i t\<rparr>)
                    (enumerate 0 traj)) (enumerate 0 trajs)"
    by (rule map_cong[OF refl]) (use inner in auto)
  then show ?thesis
    using assms by (simp only: compute_returns_and_advantages_def Let_def if_False)
qed

lemma advantage_single:
  assumes "i < length trajs" and "t < length (trajs ! i)"
      and "length (peer_returns gamma trajs t) = 1"
  shows "mean (peer_returns gamma trajs t) = return_at gamma (trajs ! i) t"
    and "sample_sd (peer_returns gamma trajs t) = 1"
    and "spec_advantage gamma trajs i t = 0"
proof -
  from assms(3) obtain v where v: "peer_returns gamma trajs t = [v]"
    by (cases "peer_returns gamma trajs t") auto
  with peer_member[OF assms(1,2), of gamma] have r: "return_at gamma (trajs ! i) t = v" by simp
  show "mean (peer_returns gamma trajs t) = return_at gamma (trajs ! i) t"
    by (simp add: v r mean_def)
  show "sample_sd (peer_returns gamma trajs t) = 1"
    by (simp add: v sample_sd_def)
  show "spec_advantage gamma trajs i t = 0"
    by (simp add: spec_advantage_def v r mean_def)
qed

lemma advantage_identical:
  assumes "i < length trajs" and "t < length (trajs ! i)"
      and "\<forall>x \<in> set (peer_returns gamma trajs t). x = return_at gamma (trajs ! i) t"
  shows "spec_advantage gamma trajs i t = 0"
proof -
  have "peer_returns gamma trajs t \<noteq> []"
    using peer_member[OF assms(1,2), of gamma] by auto
  from mean_constant[OF this assms(3)] show ?thesis
    by (simp add: spec_advantage_def)
qed

lemma advantage_pair:
  assumes "peer_returns gamma trajs t = [return_at gamma (trajs ! i) t, return_at gamma (trajs ! j) t]"
  shows "spec_advantage gamma trajs i t = - spec_advantage gamma trajs j t"
proof -
  define a where "a = return_at gamma (trajs ! i) t"
  define b where "b = return_at gamma (trajs ! j) t"
  have m: "mean (peer_returns gamma trajs t) = (a + b) / 2"
    using assms by (simp add: mean_def a_def b_def)
  have "a - (a + b) / 2 = - (b - (a + b) / 2)" by (simp add: field_simps)
  then show ?thesis
    by (simp add: spec_advantage_def m a_def[symmetric] b_def[symmetric] divide_simps)
qed

lemma sample_sd_plus_minus_one: "sample_sd [1, - 1] = sqrt 2"
  by (simp add: sample_sd_def mean_def)

lemma advantage_plus_minus_one:
  assumes "peer_returns gamma trajs t = [1, - 1]"
      and "return_at gamma (trajs ! i) t = 1" and "return_at gamma (trajs ! j) t = - 1"
  shows "spec_advantage gamma trajs i t = 1 / sqrt 2"
    and "spec_advantage gamma trajs j t = - (1 / sqrt 2)"
  using assms by (simp_all add: spec_advantage_def sample_sd_plus_minus_one mean_def)

text \<open>
  Claim C4. For every non-empty list of trajectories, with Python floats read as real
  numbers, the flat list the estimator returns carries, for trajectory \<open>i\<close> and 0-based
  turn \<open>t\<close>, the advantage \<open>(R - mu) / sigma\<close> of the specification: \<open>R\<close> is the
  discounted return, which satisfies \<open>R_t = reward_t + gamma * R_{t+1}\<close> (0 past the
  end); \<open>mu\<close> is the mean of the returns of the trajectories having a step at \<open>t\<close>;
  \<open>sigma\<close> is their Bessel-corrected standard deviation with the variance floored at
  \<open>1e-6\<close> before the square root, and 1 when there is a single such trajectory. So a
  single return at a turn has \<open>mu\<close> equal to itself, \<open>sigma = 1\<close> and advantage 0;
  when all returns at a turn are equal the advantage is 0; with two returns at a
  turn the two advantages are opposite; and for the returns 1 and -1 they are
  \<open>1 / sqrt 2\<close> and \<open>- (1 / sqrt 2)\<close>. The discount \<open>gamma\<close> is the explicit argument
  (the signature's default is 1.0).
\<close>

theorem advantages_follow_specification:
  assumes "trajs \<noteq> []"
  shows "compute_returns_and_advantages trajs gamma
           = Inr (concat (map (\<lambda>(i, traj).
                    map (\<lambda>(t, st).
                           \<lparr>flat_prompt = step_prompt st, flat_action = step_action st,
                            old_logp = step_logp st, adv = spec_advantage gamma trajs i t\<rparr>)
                        (enumerate 0 traj))
                 (enumerate 0 trajs)))
       \<and> (\<forall>i t. return_at gamma (trajs ! i) t
              = (if t < length (trajs ! i)
                 then step_reward (trajs ! i ! t) + gamma * return_at gamma (trajs ! i) (t + 1)
                 else 0))
       \<and> (\<forall>i t. i < length trajs \<and> t < length (trajs ! i)
              \<and> length (peer_returns gamma trajs t) = 1
            \<longrightarrow> mean (peer_returns gamma trajs t) = return_at gamma (trajs ! i) t
              \<and> sample_sd (peer_returns gamma trajs t) = 1
              \<and> spec_advantage gamma trajs i t = 0)
       \<and> (\<forall>i t. i < length trajs \<and> t < length (trajs ! i)
              \<and> (\<forall>x \<in> set (peer_returns gamma trajs t). x = return_at gamma (trajs ! i) t)
            \<longrightarrow> spec_advantage gamma trajs i t = 0)
       \<and> (\<forall>i j t. peer_returns gamma trajs t
                     = [return_at gamma (trajs ! i) t, return_at gamma (trajs ! j) t]
            \<longrightarrow> spec_advantage gamma trajs i t = - spec_advantage gamma trajs j t)
       \<and> (\<forall>i j t. peer_returns gamma trajs t = [1, - 1]
              \<and> return_at gamma (trajs ! i) t = 1 \<and> return_at gamma (trajs ! j) t = - 1
            \<longrightarrow> spec_advantage gamma trajs i t = 1 / sqrt 2
              \<and> spec_advantage gamma trajs j t = - (1 / sqrt 2))"
proof (intro conjI allI impI)
  show "compute_returns_and_advantages trajs gamma
           = Inr (concat (map (\<lambda>(i, traj).
                    map (\<lambda>(t, st).
                           \<lparr>flat_prompt = step_prompt st, flat_action = step_action st,
                            old_logp = step_logp st, adv = spec_advantage gamma trajs i t\<rparr>)
                        (enumerate 0 traj))
                 (enumerate 0 trajs)))"
    by (rule flat_steps_spec[OF assms])
next
  fix i t
  show "return_at gamma (trajs ! i) t
          = (if t < length (trajs ! i)
             then step_reward (trajs ! i ! t) + gamma * return_at gamma (trajs ! i) (t + 1)
             else 0)"
    by (rule return_at_step)
next
  fix i t
  assume a: "i < length trajs \<and> t < length (trajs ! i) \<and> length (peer_returns gamma trajs t) = 1"
  then show "mean (peer_returns gamma trajs t) = return_at gamma (trajs ! i) t"
    and "sample_sd (peer_returns gamma trajs t) = 1"
    and "spec_advantage gamma trajs i t = 0"
    using advantage_single[of i trajs t gamma] by simp_all
next
  fix i t
  assume "i < length trajs \<and> t < length (trajs ! i)
            \<and> (\<forall>x \<in> set (peer_returns gamma trajs t). x = return_at gamma (trajs ! i) t)"
  then show "spec_advantage gamma trajs i t = 0"
    using advantage_identical[of i trajs t gamma] by simp
next
  fix i j t
  assume "peer_returns gamma trajs t
            = [return_at gamma (trajs ! i) t, return_at gamma (trajs ! j) t]"
  then show "spec_advantage gamma trajs i t = - spec_advantage gamma trajs j t"
    by (rule advantage_pair)
next
  fix i j t
  assume "peer_returns gamma trajs t = [1, - 1]
            \<and> return_at gamma (trajs ! i) t = 1 \<and> return_at gamma (trajs ! j) t = - 1"
  then show "spec_advantage gamma trajs i t = 1 / sqrt 2"
    and "spec_advantage gamma trajs j t = - (1 / sqrt 2)"
    using advantage_plus_minus_one[of gamma trajs t i j] by simp_all
qed

theorem advantages_follow_specification_witness:
  "[[\<lparr>step_prompt = ''p'', step_action = ''EXIT'', step_logp = (), step_reward = 1\<rparr>],
    [\<lparr>step_prompt = ''q'', step_action = ''FOO'', step_logp = (), step_reward = - 1\<rparr>]] \<noteq> []
   \<and> compute_returns_and_advantages
        [[\<lparr>step_prompt = ''p'', step_action = ''EXIT'', step_logp = (), step_reward = 1\<rparr>],
         [\<lparr>step_prompt = ''q'', step_action = ''FOO'', step_logp = (), step_reward = - 1\<rparr>]] 1
      = Inr [\<lparr>flat_prompt = ''p'', flat_action = ''EXIT'', old_logp = (), adv = 1 / sqrt 2\<rparr>,
             \<lparr>flat_prompt = ''q'', flat_action = ''FOO'', old_logp = (), adv = - (1 / sqrt 2)\<rparr>]"
proof -
  define G where "G = [[\<lparr>step_prompt = ''p'', step_action = ''EXIT'', step_logp = (), step_reward = (1::real)\<rparr>],
    [\<lparr>step_prompt = ''q'', step_action = ''FOO'', step_logp = (), step_reward = - 1\<rparr>]]"
  have ne: "G \<noteq> []" by (simp add: G_def)
  have p: "peer_returns 1 G 0 = [1, - 1]"
    by (simp add: G_def peer_returns_def return_at_def)
  have a0: "spec_advantage 1 G 0 0 = 1 / sqrt 2"
    by (simp add: spec_advantage_def p sample_sd_plus_minus_one mean_def)
       (simp add: G_def return_at_def)
  have a1: "spec_advantage 1 G (Suc 0) 0 = - (1 / sqrt 2)"
    by (simp add: spec_advantage_def p sample_sd_plus_minus_one mean_def)
       (simp add: G_def return_at_def)
  from advantages_follow_specification[OF ne, of 1]
  have "compute_returns_and_advantages G 1
          = Inr (concat (map (\<lambda>(i, traj).
                    map (\<lambda>(t, st).
                           \<lparr>flat_prompt = step_prompt st, flat_action = step_action st,
                            old_logp = step_logp st, adv = spec_advantage 1 G i t\<rparr>)
                        (enumerate 0 traj))
                 (enumerate 0 G)))" by blast
  also have "\<dots> = Inr [\<lparr>flat_prompt = ''p'', flat_action = ''EXIT'', old_logp = (),
                          adv = spec_advantage 1 G 0 0\<rparr>,
                         \<lparr>flat_prompt = ''q'', flat_action = ''FOO'', old_logp = (),
                          adv = spec_advantage 1 G 1 0\<rparr>]"
    by (simp add: G_def)
  finally show ?thesis using ne by (simp add: a0 a1 G_def[symmetric])
qed

end
